theory Spec2Isabelle
  imports Main "HOL-Library.Word" "HOL-Library.Monad_Syntax"
begin

section \<open>JavaScript strings\<close>

text \<open>
  A JavaScript string is a sequence of UTF-16 code units; \<open>length\<close>, \<open>slice\<close>,
  \<open>split\<close>, \<open>replace\<close> and the regular expressions of the sources (none has the
  \<open>u\<close> flag) all work on code units. \<open>js\<close> embeds an ASCII literal.
\<close>

type_synonym jschar = "16 word"
type_synonym jsstring = "jschar list"

definition js :: "string \<Rightarrow> jsstring" where
  "js s = map (\<lambda>c. of_nat (of_char c)) s"

abbreviation (input) chLF :: jschar where "chLF \<equiv> 0x0A"
abbreviation (input) chCR :: jschar where "chCR \<equiv> 0x0D"
abbreviation (input) chQuote :: jschar where "chQuote \<equiv> 0x22"
abbreviation (input) chHash :: jschar where "chHash \<equiv> 0x23"
abbreviation (input) chDollar :: jschar where "chDollar \<equiv> 0x24"
abbreviation (input) chStar :: jschar where "chStar \<equiv> 0x2A"
abbreviation (input) chComma :: jschar where "chComma \<equiv> 0x2C"
abbreviation (input) chDot :: jschar where "chDot \<equiv> 0x2E"
abbreviation (input) chSlash :: jschar where "chSlash \<equiv> 0x2F"
abbreviation (input) chQuery :: jschar where "chQuery \<equiv> 0x3F"
abbreviation (input) chBackslash :: jschar where "chBackslash \<equiv> 0x5C"
abbreviation (input) chCaret :: jschar where "chCaret \<equiv> 0x5E"

text \<open>\<open>s.split(sep)\<close> for a one-character separator, and \<open>arr.join(sep)\<close>.\<close>

fun splitOn :: "jschar \<Rightarrow> jsstring \<Rightarrow> jsstring list" where
  "splitOn sep [] = [[]]"
| "splitOn sep (c # cs) =
     (if c = sep then [] # splitOn sep cs
      else (case splitOn sep cs of
              [] \<Rightarrow> [[c]]
            | p # ps \<Rightarrow> (c # p) # ps))"

fun joinWith :: "jsstring \<Rightarrow> jsstring list \<Rightarrow> jsstring" where
  "joinWith sep [] = []"
| "joinWith sep [x] = x"
| "joinWith sep (x # y # ys) = x @ sep @ joinWith sep (y # ys)"

definition startsWith :: "jsstring \<Rightarrow> jsstring \<Rightarrow> bool" where
  "startsWith s pre = (take (length pre) s = pre)"

definition endsWithChar :: "jsstring \<Rightarrow> jschar \<Rightarrow> bool" where
  "endsWithChar s c = (s \<noteq> [] \<and> last s = c)"

section \<open>The glob translation of gitUtils.ts\<close>

text \<open>
  The translation is written three times in \<open>ensureGitignoreSafety\<close> (in
  \<open>patternMatches\<close>, in \<open>isIgnored\<close> and in the required-pattern loop), each time as
  \<^verbatim>\<open>pat.replace(/[-/\\^$+?.()|[\]{}]/g, '\\$&').replace(/\\\*/g, '.*').replace(/\\\?/g, '.')\<close>.
  The character class of the first replacement holds the fifteen characters
  \<^verbatim>\<open>- / \ ^ $ + ? . ( ) | [ ] { }\<close>; the asterisk is not among them.
\<close>

definition metaChars :: "jschar list" where
  "metaChars = chBackslash # js ''-/^$+?.()|[]{}''"

definition isMeta :: "jschar \<Rightarrow> bool" where
  "isMeta c = (c \<in> set metaChars)"

text \<open>First replacement: every character of the class gets a backslash in front.\<close>

fun escapeMeta :: "jsstring \<Rightarrow> jsstring" where
  "escapeMeta [] = []"
| "escapeMeta (c # cs) =
     (if isMeta c then chBackslash # c # escapeMeta cs else c # escapeMeta cs)"

text \<open>
  Second and third replacement: every occurrence of the two characters backslash,
  asterisk becomes \<open>.*\<close>, then every occurrence of backslash, question mark becomes
  \<open>.\<close>. A global replacement scans from the left and goes on behind each match.
\<close>

fun restoreStar :: "jsstring \<Rightarrow> jsstring" where
  "restoreStar [] = []"
| "restoreStar [c] = [c]"
| "restoreStar (c # d # cs) =
     (if c = chBackslash \<and> d = chStar then chDot # chStar # restoreStar cs
      else c # restoreStar (d # cs))"

fun restoreQuery :: "jsstring \<Rightarrow> jsstring" where
  "restoreQuery [] = []"
| "restoreQuery [c] = [c]"
| "restoreQuery (c # d # cs) =
     (if c = chBackslash \<and> d = chQuery then chDot # restoreQuery cs
      else c # restoreQuery (d # cs))"

definition globEsc :: "jsstring \<Rightarrow> jsstring" where
  "globEsc pat = restoreQuery (restoreStar (escapeMeta pat))"

definition globSource :: "jsstring \<Rightarrow> jsstring" where
  "globSource pat = chCaret # globEsc pat @ [chDollar]"

section \<open>The regular expressions that the translation can produce\<close>

text \<open>
  \<open>new RegExp(src)\<close> without flags, for the part of the pattern grammar of
  ECMAScript (with Annex B) that \<open>globSource\<close> reaches: the assertions \<open>^\<close> and \<open>$\<close>,
  the dot, a backslash in front of one of the fifteen class characters (an identity
  escape), any other character that is not a syntax character, and the quantifier
  \<open>*\<close>. A quantifier needs an atom in front of it: after an assertion, after another
  quantifier or at the beginning the constructor throws a SyntaxError ("nothing to
  repeat"), and so does a backslash at the end of the pattern. Anything outside this
  part of the grammar is answered with \<open>Unsupported\<close>; \<open>globSource_supported\<close> below
  shows that the translation never gets there.
\<close>

datatype reAtom = Lit jschar | AnyChar

datatype reToken = TBol | TEol | TStar | TAtom reAtom

datatype reTerm = Bol | Eol | One reAtom | Many reAtom

datatype reError = SyntaxError | Unsupported

definition consR :: "'a \<Rightarrow> reError + 'a list \<Rightarrow> reError + 'a list" where
  "consR x r = (case r of Inl e \<Rightarrow> Inl e | Inr xs \<Rightarrow> Inr (x # xs))"

definition rawUnsupported :: "jschar list" where
  "rawUnsupported = js ''+?()[]{}|''"

fun lexRegex :: "jsstring \<Rightarrow> reError + reToken list" where
  "lexRegex [] = Inr []"
| "lexRegex (c # cs) =
     (if c = chBackslash then
        (case cs of
           [] \<Rightarrow> Inl SyntaxError
         | d # ds \<Rightarrow> if isMeta d then consR (TAtom (Lit d)) (lexRegex ds) else Inl Unsupported)
      else if c = chCaret then consR TBol (lexRegex cs)
      else if c = chDollar then consR TEol (lexRegex cs)
      else if c = chStar then consR TStar (lexRegex cs)
      else if c = chDot then consR (TAtom AnyChar) (lexRegex cs)
      else if c \<in> set rawUnsupported then Inl Unsupported
      else consR (TAtom (Lit c)) (lexRegex cs))"

fun quantify :: "reToken list \<Rightarrow> reError + reTerm list" where
  "quantify [] = Inr []"
| "quantify (TStar # ts) = Inl SyntaxError"
| "quantify (TAtom a # TStar # ts) = consR (Many a) (quantify ts)"
| "quantify (TAtom a # ts) = consR (One a) (quantify ts)"
| "quantify (TBol # ts) = consR Bol (quantify ts)"
| "quantify (TEol # ts) = consR Eol (quantify ts)"

definition newRegExp :: "jsstring \<Rightarrow> reError + reTerm list" where
  "newRegExp src = (case lexRegex src of Inl e \<Rightarrow> Inl e | Inr ts \<Rightarrow> quantify ts)"

text \<open>
  \<open>re.test(s)\<close>: some start position has a match. Without the \<open>s\<close> flag the dot
  matches every code unit but the four line terminators; without the \<open>m\<close> flag \<open>^\<close>
  holds at position 0 only and \<open>$\<close> at the end only. The flag of \<open>matchHere\<close> says
  whether the position is 0.
\<close>

definition isLineTerminator :: "jschar \<Rightarrow> bool" where
  "isLineTerminator c = (c = chLF \<or> c = chCR \<or> c = 0x2028 \<or> c = 0x2029)"

fun matchAtom :: "reAtom \<Rightarrow> jschar \<Rightarrow> bool" where
  "matchAtom (Lit x) c = (c = x)"
| "matchAtom AnyChar c = (\<not> isLineTerminator c)"

fun matchHere :: "reTerm list \<Rightarrow> jsstring \<Rightarrow> bool \<Rightarrow> bool" where
  "matchHere [] s atStart = True"
| "matchHere (Bol # ts) s atStart = (atStart \<and> matchHere ts s atStart)"
| "matchHere (Eol # ts) s atStart = (s = [] \<and> matchHere ts s atStart)"
| "matchHere (One a # ts) [] atStart = False"
| "matchHere (One a # ts) (c # cs) atStart = (matchAtom a c \<and> matchHere ts cs False)"
| "matchHere (Many a # ts) [] atStart = matchHere ts [] atStart"
| "matchHere (Many a # ts) (c # cs) atStart =
     ((matchAtom a c \<and> matchHere (Many a # ts) cs False) \<or> matchHere ts (c # cs) atStart)"

fun searchFrom :: "reTerm list \<Rightarrow> jsstring \<Rightarrow> bool \<Rightarrow> bool" where
  "searchFrom ts [] atStart = matchHere ts [] atStart"
| "searchFrom ts (c # cs) atStart = (matchHere ts (c # cs) atStart \<or> searchFrom ts cs False)"

definition test :: "reTerm list \<Rightarrow> jsstring \<Rightarrow> bool" where
  "test re s = searchFrom re s True"

section \<open>isIgnored and the required-pattern check\<close>

text \<open>
  \<open>relPath.split(path.sep).join('/')\<close>, with the separator of POSIX. In the source
  \<open>isIgnored\<close> closes over \<open>lines\<close>; here the list is an argument. The \<open>try\<close>
  around the construction of the regular expression is the case distinction on
  \<open>newRegExp\<close>: a thrown error goes on with the next pattern.
\<close>

definition toPosix :: "jsstring \<Rightarrow> jsstring" where
  "toPosix s = joinWith [chSlash] (splitOn chSlash s)"

fun isIgnored :: "jsstring list \<Rightarrow> jsstring \<Rightarrow> bool" where
  "isIgnored [] relPath = False"
| "isIgnored (pat # pats) relPath =
     (let p = toPosix relPath in
      if pat = p then True
      else if endsWithChar pat chSlash \<and> (p = butlast pat \<or> startsWith p pat) then True
      else (case newRegExp (globSource pat) of
              Inl e \<Rightarrow> isIgnored pats relPath
            | Inr re \<Rightarrow> if test re p then True else isIgnored pats relPath))"

text \<open>The inner loop of the required-pattern check (the variable \<open>found\<close>).\<close>

fun found :: "jsstring list \<Rightarrow> jsstring \<Rightarrow> bool" where
  "found [] req = False"
| "found (l # ls) req =
     (if l = req then True
      else (case newRegExp (globSource l) of
              Inl e \<Rightarrow> found ls req
            | Inr re \<Rightarrow> if test re req then True else found ls req))"

subsection \<open>The two checks with the thrown error written out\<close>

text \<open>
  In \<open>isIgnored\<close> and \<open>found\<close> above the \<open>catch\<close> is folded into the case distinction.
  Here the exception is a value: a computation is \<open>Inl\<close> of the error it throws or
  \<open>Inr\<close> of the value it returns, \<open>tryCatch body handler\<close> is \<open>try { body } catch (e) {
  handler }\<close>, and an error that no \<open>try\<close> encloses is the result of the function. The
  helper \<open>patternMatches\<close> (lines 100 to 104) has the same three statements as the two
  \<open>try\<close> blocks (lines 118 to 120 and 142 to 143) and no \<open>try\<close> around them; nothing in
  the source calls it.
\<close>

definition tryCatch :: "reError + 'a \<Rightarrow> (reError \<Rightarrow> reError + 'a) \<Rightarrow> reError + 'a" where
  "tryCatch body handler = (case body of Inl e \<Rightarrow> handler e | Inr v \<Rightarrow> Inr v)"

definition patternMatches :: "jsstring \<Rightarrow> jsstring \<Rightarrow> reError + bool" where
  "patternMatches pattern p =
     (case newRegExp (globSource pattern) of
        Inl e \<Rightarrow> Inl e
      | Inr re \<Rightarrow> Inr (test re p))"

fun isIgnoredE :: "jsstring list \<Rightarrow> jsstring \<Rightarrow> reError + bool" where
  "isIgnoredE [] relPath = Inr False"
| "isIgnoredE (pat # pats) relPath =
     (let p = toPosix relPath in
      if pat = p then Inr True
      else if endsWithChar pat chSlash \<and> (p = butlast pat \<or> startsWith p pat) then Inr True
      else (case tryCatch
                   (case newRegExp (globSource pat) of
                      Inl e \<Rightarrow> Inl e
                    | Inr re \<Rightarrow> Inr (test re p))
                   (\<lambda>e. Inr False) of
              Inl e \<Rightarrow> Inl e
            | Inr hit \<Rightarrow> if hit then Inr True else isIgnoredE pats relPath))"

fun foundE :: "jsstring list \<Rightarrow> jsstring \<Rightarrow> reError + bool" where
  "foundE [] req = Inr False"
| "foundE (l # ls) req =
     (if l = req then Inr True
      else (case tryCatch
                   (case newRegExp (globSource l) of
                      Inl e \<Rightarrow> Inl e
                    | Inr re \<Rightarrow> Inr (test re req))
                   (\<lambda>e. Inr False) of
              Inl e \<Rightarrow> Inl e
            | Inr hit \<Rightarrow> if hit then Inr True else foundE ls req))"

section \<open>Evaluation rules\<close>

lemma js_Nil: "js [] = []"
  by (simp add: js_def)

lemma js_Cons: "js (c # cs) = of_nat (of_char c) # js cs"
  by (simp add: js_def)

lemmas glob_eval = js_Nil js_Cons metaChars_def isMeta_def globEsc_def globSource_def
  rawUnsupported_def consR_def newRegExp_def isLineTerminator_def test_def toPosix_def
  startsWith_def endsWithChar_def

section \<open>The change digest compressor (changesSummarizer.ts)\<close>

text \<open>
  \<open>type FileChange = { file: string; change: string }\<close>. The fields carry the prefix
  \<open>fc_\<close> because \<open>file\<close> is a keyword of Isabelle. \<open>maxLen\<close> is a JavaScript number;
  the model takes an integer (a budget that is not a whole number compares like the
  next one below, \<open>NaN\<close> is left out).
\<close>

record FileChange =
  fc_file :: jsstring
  fc_change :: jsstring

text \<open>\<open>s.replace(/c/g, rep)\<close> for a one-character pattern.\<close>

fun replaceChar :: "jschar \<Rightarrow> jsstring \<Rightarrow> jsstring \<Rightarrow> jsstring" where
  "replaceChar c rep [] = []"
| "replaceChar c rep (x # xs) =
     (if x = c then rep @ replaceChar c rep xs else x # replaceChar c rep xs)"

definition escapeStr :: "jsstring \<Rightarrow> jsstring" where
  "escapeStr s =
     replaceChar chCR (chBackslash # js ''r'')
       (replaceChar chLF (chBackslash # js ''n'')
          (replaceChar chQuote [chBackslash, chQuote]
             (replaceChar chBackslash [chBackslash, chBackslash] s)))"

definition item :: "(jsstring \<Rightarrow> jsstring \<Rightarrow> jsstring) \<Rightarrow> FileChange \<Rightarrow> jsstring" where
  \<open>item mapFn fc =
     js ''{"f":"'' @ escapeStr (fc_file fc) @ js ''","c":"'' @
     escapeStr (mapFn (fc_change fc) (fc_file fc)) @ js ''"}''\<close>

definition serialize :: "FileChange list \<Rightarrow> (jsstring \<Rightarrow> jsstring \<Rightarrow> jsstring) \<Rightarrow> jsstring" where
  \<open>serialize arr mapFn =
     js ''{"files": ['' @ joinWith [chComma] (map (item mapFn) arr) @ js '']}''\<close>

definition maps :: "(jsstring \<Rightarrow> jsstring \<Rightarrow> jsstring) list" where
  "maps = [\<lambda>c f. c, \<lambda>c f. take 12 c, \<lambda>c f. take 6 c, \<lambda>c f. take 3 c, \<lambda>c f. take 1 c]"

subsection \<open>JSON.stringify\<close>

text \<open>
  \<open>JSON.stringify\<close> on the two object shapes of compressToJson, after QuoteJSONString
  of ECMA-262: the short escapes, \<open>\u\<close> and four lower-case hexadecimal digits for
  the other code units below 0x20 and for a surrogate that is not half of a pair, and
  every other code unit as it is.
\<close>

definition hexDigit :: "nat \<Rightarrow> jschar" where
  "hexDigit d = (if d < 10 then of_nat (48 + d) else of_nat (87 + d))"

definition unicodeEscape :: "jschar \<Rightarrow> jsstring" where
  "unicodeEscape c =
     (let n = unat c in
      chBackslash # js ''u'' @
      [hexDigit (n div 4096), hexDigit (n div 256 mod 16), hexDigit (n div 16 mod 16),
       hexDigit (n mod 16)])"

definition isLeadSurrogate :: "jschar \<Rightarrow> bool" where
  "isLeadSurrogate c = (0xD800 \<le> c \<and> c \<le> 0xDBFF)"

definition isTrailSurrogate :: "jschar \<Rightarrow> bool" where
  "isTrailSurrogate c = (0xDC00 \<le> c \<and> c \<le> 0xDFFF)"

definition quoteUnit :: "jschar \<Rightarrow> jsstring" where
  "quoteUnit c =
     (if c = 0x08 then chBackslash # js ''b''
      else if c = 0x09 then chBackslash # js ''t''
      else if c = chLF then chBackslash # js ''n''
      else if c = 0x0C then chBackslash # js ''f''
      else if c = chCR then chBackslash # js ''r''
      else if c = chQuote then [chBackslash, chQuote]
      else if c = chBackslash then [chBackslash, chBackslash]
      else if c < 0x20 \<or> isLeadSurrogate c \<or> isTrailSurrogate c then unicodeEscape c
      else [c])"

fun quoteBody :: "jsstring \<Rightarrow> jsstring" where
  "quoteBody [] = []"
| "quoteBody [c] = quoteUnit c"
| "quoteBody (c # d # cs) =
     (if isLeadSurrogate c \<and> isTrailSurrogate d then c # d # quoteBody cs
      else quoteUnit c @ quoteBody (d # cs))"

definition quoteJSONString :: "jsstring \<Rightarrow> jsstring" where
  "quoteJSONString s = chQuote # quoteBody s @ [chQuote]"

definition stringifyEntry :: "jsstring \<times> jsstring \<Rightarrow> jsstring" where
  \<open>stringifyEntry e =
     js ''{"f":'' @ quoteJSONString (fst e) @ js '',"c":'' @ quoteJSONString (snd e) @ js ''}''\<close>

definition stringifyFiles :: "(jsstring \<times> jsstring) list \<Rightarrow> jsstring" where
  \<open>stringifyFiles es =
     js ''{"files":['' @ joinWith [chComma] (map stringifyEntry es) @ js '']}''\<close>

subsection \<open>compressToJson\<close>

text \<open>
  The two nested \<open>for\<close> loops: \<open>tryKeep\<close> counts \<open>keep\<close> down from the length of the
  list to 1 for one transform, \<open>tryMaps\<close> goes through the transforms in order. The
  first serialization that fits is returned; \<open>None\<close> says that the loops ran out.
\<close>

fun tryKeep :: "FileChange list \<Rightarrow> (jsstring \<Rightarrow> jsstring \<Rightarrow> jsstring) \<Rightarrow> int \<Rightarrow> nat \<Rightarrow> jsstring option" where
  "tryKeep fileChanges mapFn maxLen 0 = None"
| "tryKeep fileChanges mapFn maxLen (Suc k) =
     (let s = serialize (take (Suc k) fileChanges) mapFn in
      if int (length s) \<le> maxLen then Some s else tryKeep fileChanges mapFn maxLen k)"

fun tryMaps :: "FileChange list \<Rightarrow> (jsstring \<Rightarrow> jsstring \<Rightarrow> jsstring) list \<Rightarrow> int \<Rightarrow> jsstring option" where
  "tryMaps fileChanges [] maxLen = None"
| "tryMaps fileChanges (mapFn # ms) maxLen =
     (case tryKeep fileChanges mapFn maxLen (length fileChanges) of
        Some s \<Rightarrow> Some s
      | None \<Rightarrow> tryMaps fileChanges ms maxLen)"

definition minimalEntry :: "FileChange \<Rightarrow> jsstring \<times> jsstring" where
  "minimalEntry fc =
     (let b = last (splitOn chSlash (fc_file fc)) in
      (if b = [] then fc_file fc else b, js ''mod''))"

definition compressToJson :: "FileChange list \<Rightarrow> int \<Rightarrow> jsstring" where
  "compressToJson fileChanges maxLen =
     (if fileChanges = [] then stringifyFiles []
      else (case tryMaps fileChanges maps maxLen of
              Some s \<Rightarrow> s
            | None \<Rightarrow> stringifyFiles (map minimalEntry (take 1 fileChanges))))"

lemmas compress_eval = js_Nil js_Cons escapeStr_def item_def serialize_def maps_def
  hexDigit_def unicodeEscape_def isLeadSurrogate_def isTrailSurrogate_def quoteUnit_def
  quoteJSONString_def stringifyEntry_def stringifyFiles_def minimalEntry_def compressToJson_def

section \<open>Reading a digest back\<close>

text \<open>
  What "parseable JSON" means for a digest: a reader for JSON text (RFC 8259) of the
  shape \<open>{"files":[{"f":string,"c":string}, ...]}\<close>, with white space allowed around the
  structural characters. Inside a string every code unit from 0x20 on stands for
  itself, except the double quote and the backslash; a backslash starts one of the
  escapes of JSON; a code unit below 0x20 is an error. The reader returns the decoded
  entries.
\<close>

definition isJsonWs :: "jschar \<Rightarrow> bool" where
  "isJsonWs c = (c = 0x20 \<or> c = 0x09 \<or> c = chLF \<or> c = chCR)"

definition hexVal :: "jschar \<Rightarrow> nat option" where
  "hexVal c =
     (if 0x30 \<le> c \<and> c \<le> 0x39 then Some (unat c - 48)
      else if 0x61 \<le> c \<and> c \<le> 0x66 then Some (unat c - 87)
      else if 0x41 \<le> c \<and> c \<le> 0x46 then Some (unat c - 55)
      else None)"

definition hex4 :: "jschar \<Rightarrow> jschar \<Rightarrow> jschar \<Rightarrow> jschar \<Rightarrow> jschar option" where
  "hex4 h3 h2 h1 h0 =
     do { x3 \<leftarrow> hexVal h3; x2 \<leftarrow> hexVal h2; x1 \<leftarrow> hexVal h1; x0 \<leftarrow> hexVal h0;
          Some (of_nat (x3 * 4096 + x2 * 256 + x1 * 16 + x0)) }"

definition unescape :: "jschar \<Rightarrow> jschar option" where
  "unescape e =
     (if e = chQuote \<or> e = chBackslash \<or> e = chSlash then Some e
      else if e = 0x62 then Some 0x08
      else if e = 0x66 then Some 0x0C
      else if e = 0x6E then Some chLF
      else if e = 0x72 then Some chCR
      else if e = 0x74 then Some 0x09
      else None)"

definition consS :: "jschar \<Rightarrow> (jsstring \<times> jsstring) option \<Rightarrow> (jsstring \<times> jsstring) option" where
  "consS v r = (case r of None \<Rightarrow> None | Some (s, rest) \<Rightarrow> Some (v # s, rest))"

fun jsonChars :: "jsstring \<Rightarrow> (jsstring \<times> jsstring) option" where
  "jsonChars [] = None"
| "jsonChars (c # cs) =
     (if c = chQuote then Some ([], cs)
      else if c = chBackslash then
        (case cs of
           [] \<Rightarrow> None
         | e # r \<Rightarrow>
             if e = 0x75 then
               (case r of
                  h3 # h2 # h1 # h0 # r' \<Rightarrow>
                    (case hex4 h3 h2 h1 h0 of
                       None \<Rightarrow> None
                     | Some v \<Rightarrow> consS v (jsonChars r'))
                | _ \<Rightarrow> None)
             else (case unescape e of
                     None \<Rightarrow> None
                   | Some v \<Rightarrow> consS v (jsonChars r)))
      else if c < 0x20 then None
      else consS c (jsonChars cs))"

definition skipWs :: "jsstring \<Rightarrow> jsstring" where
  "skipWs s = dropWhile isJsonWs s"

definition expect :: "jschar \<Rightarrow> jsstring \<Rightarrow> jsstring option" where
  "expect c s = (case skipWs s of [] \<Rightarrow> None | x # xs \<Rightarrow> if x = c then Some xs else None)"

definition jsonString :: "jsstring \<Rightarrow> (jsstring \<times> jsstring) option" where
  "jsonString s = do { r \<leftarrow> expect chQuote s; jsonChars r }"

definition jsonKey :: "jsstring \<Rightarrow> jsstring \<Rightarrow> jsstring option" where
  "jsonKey k s = do { (v, r) \<leftarrow> jsonString s; if v = k then Some r else None }"

definition parseEntry :: "jsstring \<Rightarrow> ((jsstring \<times> jsstring) \<times> jsstring) option" where
  "parseEntry s =
     do { r1 \<leftarrow> expect 0x7B s;
          r2 \<leftarrow> jsonKey (js ''f'') r1;
          r3 \<leftarrow> expect 0x3A r2;
          (f, r4) \<leftarrow> jsonString r3;
          r5 \<leftarrow> expect chComma r4;
          r6 \<leftarrow> jsonKey (js ''c'') r5;
          r7 \<leftarrow> expect 0x3A r6;
          (c, r8) \<leftarrow> jsonString r7;
          r9 \<leftarrow> expect 0x7D r8;
          Some ((f, c), r9) }"

lemma skipWs_length: "length (skipWs s) \<le> length s"
  by (simp add: skipWs_def length_dropWhile_le)

lemma expect_length: "expect c s = Some r \<Longrightarrow> length r < length s"
  using skipWs_length [of s]
  by (auto simp: expect_def split: list.splits if_splits)

lemma consS_length:
  "consS v x = Some (t, r) \<Longrightarrow> \<exists>t'. x = Some (t', r)"
  by (auto simp: consS_def split: option.splits)

lemma jsonChars_length: "jsonChars s = Some (t, r) \<Longrightarrow> length r < length s"
proof (induction "length s" arbitrary: s t rule: less_induct)
  case less
  note IH = less.hyps [rotated]
  from less.prems show ?case
    by (cases s)
      (auto simp: consS_def split: if_splits list.splits option.splits dest!: IH)
qed

lemma jsonString_length: "jsonString s = Some (t, r) \<Longrightarrow> length r < length s"
  by (auto simp: jsonString_def split: Option.bind_splits
      dest!: expect_length jsonChars_length)

lemma jsonKey_length: "jsonKey k s = Some r \<Longrightarrow> length r < length s"
  by (auto simp: jsonKey_def split: Option.bind_splits if_splits dest!: jsonString_length)

lemma parseEntry_length: "parseEntry s = Some (e, r) \<Longrightarrow> length r < length s"
  by (auto simp: parseEntry_def split: Option.bind_splits
      dest!: expect_length jsonKey_length jsonString_length)

function parseMore :: "jsstring \<Rightarrow> ((jsstring \<times> jsstring) list \<times> jsstring) option" where
  "parseMore s =
     (case expect chComma s of
        Some r \<Rightarrow>
          (case parseEntry r of
             None \<Rightarrow> None
           | Some (e, r') \<Rightarrow>
               (case parseMore r' of
                  None \<Rightarrow> None
                | Some (es, r'') \<Rightarrow> Some (e # es, r'')))
      | None \<Rightarrow>
          (case expect 0x5D s of
             None \<Rightarrow> None
           | Some r \<Rightarrow> Some ([], r)))"
  by pat_completeness auto
termination
proof (relation "measure length")
  show "wf (measure length)" by simp
next
  fix s r x e r'
  assume "expect chComma s = Some r" "parseEntry r = Some x" "(e, r') = x"
  then show "(r', s) \<in> measure length"
    using expect_length [of chComma s r] parseEntry_length [of r e r'] by simp
qed

definition parseEntries :: "jsstring \<Rightarrow> ((jsstring \<times> jsstring) list \<times> jsstring) option" where
  "parseEntries s =
     (case expect 0x5D s of
        Some r \<Rightarrow> Some ([], r)
      | None \<Rightarrow> do { (e, r) \<leftarrow> parseEntry s; (es, r') \<leftarrow> parseMore r; Some (e # es, r') })"

definition parseDigest :: "jsstring \<Rightarrow> (jsstring \<times> jsstring) list option" where
  "parseDigest s =
     do { r1 \<leftarrow> expect 0x7B s;
          r2 \<leftarrow> jsonKey (js ''files'') r1;
          r3 \<leftarrow> expect 0x3A r2;
          r4 \<leftarrow> expect 0x5B r3;
          (es, r5) \<leftarrow> parseEntries r4;
          r6 \<leftarrow> expect 0x7D r5;
          if skipWs r6 = [] then Some es else None }"

lemmas digest_eval = isJsonWs_def hexVal_def hex4_def unescape_def consS_def skipWs_def
  expect_def jsonString_def jsonKey_def parseEntry_def parseEntries_def parseDigest_def

section \<open>The ignore-safety resolver (gitUtils.ts, ensureGitignoreSafety)\<close>

subsection \<open>Reading the ignore file\<close>

text \<open>\<open>String.prototype.trim\<close> removes white space and line terminators at both ends.\<close>

definition isWhiteSpace :: "jschar \<Rightarrow> bool" where
  "isWhiteSpace c =
     (c = 0x09 \<or> c = chLF \<or> c = 0x0B \<or> c = 0x0C \<or> c = chCR \<or> c = 0x20 \<or> c = 0xA0
      \<or> c = 0x1680 \<or> (0x2000 \<le> c \<and> c \<le> 0x200A) \<or> c = 0x2028 \<or> c = 0x2029
      \<or> c = 0x202F \<or> c = 0x205F \<or> c = 0x3000 \<or> c = 0xFEFF)"

definition trim :: "jsstring \<Rightarrow> jsstring" where
  "trim s = rev (dropWhile isWhiteSpace (rev (dropWhile isWhiteSpace s)))"

text \<open>\<open>existing.split(/\r?\n/)\<close>: a line feed, with a carriage return directly in front
  of it if there is one, separates two pieces.\<close>

fun splitLines :: "jsstring \<Rightarrow> jsstring list" where
  "splitLines [] = [[]]"
| "splitLines (c # cs) =
     (if c = chLF then [] # splitLines cs
      else if c = chCR \<and> cs \<noteq> [] \<and> hd cs = chLF then [] # splitLines (tl cs)
      else (case splitLines cs of
              [] \<Rightarrow> [[c]]
            | p # ps \<Rightarrow> (c # p) # ps))"

definition parseLines :: "jsstring \<Rightarrow> jsstring list" where
  "parseLines existing =
     filter (\<lambda>l. length l > 0 \<and> \<not> startsWith l [chHash]) (map trim (splitLines existing))"

subsection \<open>Required patterns\<close>

definition required :: "jsstring list" where
  "required = [js ''*.env*'', js ''.env*'', js ''docx/'', js ''.docx/'']"

fun checkRequired :: "jsstring list \<Rightarrow> jsstring list \<Rightarrow> jsstring list \<Rightarrow> jsstring list" where
  "checkRequired lines [] toAppend = toAppend"
| "checkRequired lines (req # reqs) toAppend =
     (if found lines req then checkRequired lines reqs toAppend
      else checkRequired lines reqs
             (toAppend @ [js ''# Added by Autocommiter: ensure '' @ req, req]))"

subsection \<open>The walk\<close>

text \<open>
  A directory entry is a directory that can be listed, a directory whose listing
  throws, or anything else (\<open>isDirectory()\<close> is false for it). A directory is walked
  under its path relative to the repository root, \<open>[]\<close> for the root itself:
  \<open>path.relative(repoRoot, path.join(dir, name))\<close> is that path, a slash and the name.
\<close>

datatype fsnode = File jsstring | Dir jsstring "fsnode list" | Unlistable jsstring

fun nodeName :: "fsnode \<Rightarrow> jsstring" where
  "nodeName (File n) = n"
| "nodeName (Dir n es) = n"
| "nodeName (Unlistable n) = n"

fun isDirectory :: "fsnode \<Rightarrow> bool" where
  "isDirectory (File n) = False"
| "isDirectory (Dir n es) = True"
| "isDirectory (Unlistable n) = True"

definition relJoin :: "jsstring \<Rightarrow> jsstring \<Rightarrow> jsstring" where
  "relJoin dirRel name = (if dirRel = [] then name else dirRel @ chSlash # name)"

definition pushParent :: "jsstring \<Rightarrow> jsstring list \<Rightarrow> jsstring list" where
  "pushParent dirRel nestedGitParents =
     (let parentRel = toPosix dirRel in
      if parentRel \<noteq> [] \<and> parentRel \<noteq> js ''.'' then
        (if parentRel \<in> set nestedGitParents then nestedGitParents
         else nestedGitParents @ [parentRel])
      else nestedGitParents)"

fun walk :: "jsstring list \<Rightarrow> jsstring \<Rightarrow> fsnode list \<Rightarrow> jsstring list \<Rightarrow> jsstring list" where
  "walk lines dirRel [] nestedGitParents = nestedGitParents"
| "walk lines dirRel (e # es) nestedGitParents =
     (let relPosix = toPosix (relJoin dirRel (nodeName e)) in
      if isIgnored lines relPosix \<and> isDirectory e then walk lines dirRel es nestedGitParents
      else (case e of
              File n \<Rightarrow> walk lines dirRel es nestedGitParents
            | Unlistable n \<Rightarrow>
                if n = js ''.git'' then walk lines dirRel es (pushParent dirRel nestedGitParents)
                else walk lines dirRel es nestedGitParents
            | Dir n sub \<Rightarrow>
                if n = js ''.git'' then walk lines dirRel es (pushParent dirRel nestedGitParents)
                else walk lines dirRel es (walk lines relPosix sub nestedGitParents)))"

subsection \<open>The repository and one run\<close>

text \<open>
  What one run reads: the text of \<open>.gitignore\<close> (\<open>None\<close> when it cannot be read, which
  the code takes for the empty string), the tree below the root, the paths that the scan
  of \<open>.gitmodules\<close> yields (lines 199 to 208; the empty list when the file cannot be
  read), and for a nested repository \<open>p\<close> the text of \<open>p/.gitmodules\<close> when it exists and
  can be read. The run is taken with a \<open>.gitignore\<close> that can be written; the strings
  are those that reading a file or a directory yields, for which writing as UTF-8 and
  reading again gives the same string. Entries that are not directories have no effect
  on the walk, so the tree is the same after the file is written. The second component
  of the result says whether the file was written (and the message printed).
\<close>

record repo =
  gitignore :: "jsstring option"
  root :: fsnode
  gitmodulePaths :: "jsstring list"
  subGitmodules :: "jsstring \<Rightarrow> jsstring option"

definition walkRoot :: "jsstring list \<Rightarrow> fsnode \<Rightarrow> jsstring list" where
  "walkRoot lines r = (case r of Dir n es \<Rightarrow> walk lines [] es [] | _ \<Rightarrow> [])"

fun includesStr :: "jsstring \<Rightarrow> jsstring \<Rightarrow> bool" where
  "includesStr [] p = (p = [])"
| "includesStr (c # cs) p = (startsWith (c # cs) p \<or> includesStr cs p)"

fun checkNested :: "repo \<Rightarrow> jsstring list \<Rightarrow> jsstring list \<Rightarrow> jsstring list \<Rightarrow> jsstring list" where
  "checkNested st lines [] toAppend = toAppend"
| "checkNested st lines (p # ps) toAppend =
     (if p \<in> set (gitmodulePaths st) then checkNested st lines ps toAppend
      else if isIgnored lines p then checkNested st lines ps toAppend
      else if (case subGitmodules st p of None \<Rightarrow> False | Some sub \<Rightarrow> includesStr sub p)
        then checkNested st lines ps toAppend
      else checkNested st lines ps
             (toAppend @ [js ''# Added by Autocommiter: ignore nested repo '' @ p, p @ [chSlash]]))"

definition readExisting :: "repo \<Rightarrow> jsstring" where
  "readExisting st = (case gitignore st of None \<Rightarrow> [] | Some s \<Rightarrow> s)"

text \<open>\<open>queued\<close> is \<open>toAppend\<close> as it stands in front of the final \<open>if\<close> (line 231).\<close>

definition queued :: "repo \<Rightarrow> jsstring list" where
  "queued st =
     (let lines = parseLines (readExisting st) in
      checkNested st lines (walkRoot lines (root st)) (checkRequired lines required []))"

definition toWrite :: "jsstring \<Rightarrow> jsstring list \<Rightarrow> jsstring" where
  "toWrite existing toAppend =
     (if existing \<noteq> [] \<and> length (trim existing) > 0 then existing @ [chLF] else [])
     @ joinWith [chLF] toAppend @ [chLF]"

definition ensureGitignoreSafety :: "repo \<Rightarrow> repo \<times> bool" where
  "ensureGitignoreSafety st =
     (let existing = readExisting st; toAppend = queued st in
      if length toAppend > 0
      then (st\<lparr>gitignore := Some (toWrite existing toAppend)\<rparr>, True)
      else (st, False))"

lemmas resolver_eval = glob_eval isWhiteSpace_def trim_def parseLines_def required_def
  relJoin_def pushParent_def walkRoot_def readExisting_def queued_def toWrite_def
  ensureGitignoreSafety_def

section \<open>Predicates and inputs of the claims\<close>

text \<open>Some transform and some kept prefix of at least one entry serialize within the
  budget.\<close>

definition someFits :: "FileChange list \<Rightarrow> int \<Rightarrow> bool" where
  "someFits fileChanges maxLen =
     list_ex (\<lambda>mapFn.
        list_ex (\<lambda>keep. int (length (serialize (take keep fileChanges) mapFn)) \<le> maxLen)
          [1..<Suc (length fileChanges)]) maps"

text \<open>The test of the inner loop (\<open>if (s.length <= maxLen) return s\<close>) for one transform
  and one value of \<open>keep\<close>, and a list of three entries.\<close>

definition fitsAt :: "FileChange list \<Rightarrow> int \<Rightarrow> (jsstring \<Rightarrow> jsstring \<Rightarrow> jsstring) \<Rightarrow> nat \<Rightarrow> bool" where
  "fitsAt fileChanges maxLen mapFn keep =
     (int (length (serialize (take keep fileChanges) mapFn)) \<le> maxLen)"

definition threeFiles :: "FileChange list" where
  "threeFiles =
     [\<lparr>fc_file = js ''a.txt'', fc_change = js ''12+/3-''\<rparr>,
      \<lparr>fc_file = js ''b.txt'', fc_change = js ''1+/1-''\<rparr>,
      \<lparr>fc_file = js ''c.txt'', fc_change = js ''0+/9-''\<rparr>]"

text \<open>The persisted text as the spec words it: the separating line feed only when the
  existing content is non-empty and does not end in one.\<close>

definition claimedWrite :: "jsstring \<Rightarrow> jsstring list \<Rightarrow> jsstring" where
  "claimedWrite existing toAppend =
     existing @ (if existing \<noteq> [] \<and> last existing \<noteq> chLF then [chLF] else [])
     @ joinWith [chLF] toAppend @ [chLF]"

text \<open>
  The condition under which the last loop queues a nested repository, the paths it
  queues in one run, and the paths that come back from the ignore file as the pattern
  that was written for them.
\<close>

definition needsIgnore :: "repo \<Rightarrow> jsstring list \<Rightarrow> jsstring \<Rightarrow> bool" where
  "needsIgnore st lines p =
     (p \<notin> set (gitmodulePaths st) \<and> \<not> isIgnored lines p
      \<and> \<not> (case subGitmodules st p of None \<Rightarrow> False | Some sub \<Rightarrow> includesStr sub p))"

definition queuedNested :: "repo \<Rightarrow> jsstring list" where
  "queuedNested st =
     (let lines = parseLines (readExisting st) in
      filter (needsIgnore st lines) (walkRoot lines (root st)))"

definition cleanPath :: "jsstring \<Rightarrow> bool" where
  "cleanPath p = (p \<noteq> [] \<and> \<not> isWhiteSpace (hd p) \<and> hd p \<noteq> chHash \<and> chLF \<notin> set p)"

text \<open>
  Three repositories: one with a nested repository in a directory named \<open>#x\<close>, one
  with a nested repository in \<open>vendor\<close> and no ignore file, one where nothing is left to
  do.
\<close>

definition repoHash :: repo where
  "repoHash =
     \<lparr>gitignore = Some (js ''*.env*'' @ [chLF] @ js ''.env*'' @ [chLF] @ js ''docx/'' @ [chLF]
                       @ js ''.docx/'' @ [chLF]),
      root = Dir [] [File (js ''.gitignore''), Dir (js ''.git'') [],
                     Dir (js ''#x'') [Dir (js ''.git'') []]],
      gitmodulePaths = [], subGitmodules = (\<lambda>p. None)\<rparr>"

definition repoVendor :: repo where
  "repoVendor =
     \<lparr>gitignore = None,
      root = Dir [] [Dir (js ''.git'') [], Dir (js ''vendor'') [Dir (js ''.git'') []]],
      gitmodulePaths = [], subGitmodules = (\<lambda>p. None)\<rparr>"

definition repoDone :: repo where
  "repoDone =
     \<lparr>gitignore = Some (js ''*.env*'' @ [chLF] @ js ''.env*'' @ [chLF] @ js ''docx/'' @ [chLF]
                       @ js ''.docx/'' @ [chLF]),
      root = Dir [] [File (js ''.gitignore''), Dir (js ''.git'') []],
      gitmodulePaths = [], subGitmodules = (\<lambda>p. None)\<rparr>"

definition reHit :: "jsstring \<Rightarrow> jsstring \<Rightarrow> bool" where
  "reHit pat s = (case newRegExp (globSource pat) of Inl e \<Rightarrow> False | Inr re \<Rightarrow> test re s)"

definition dirHit :: "jsstring \<Rightarrow> jsstring \<Rightarrow> bool" where
  "dirHit pat p = (endsWithChar pat chSlash \<and> (p = butlast pat \<or> startsWith p pat))"

definition linesAfter :: "repo \<Rightarrow> jsstring list" where
  "linesAfter st = parseLines (readExisting (fst (ensureGitignoreSafety st)))"

text \<open>
  \<open>reaches ls d es d' e\<close>: the loop over the listing \<open>es\<close> of the directory \<open>d\<close> comes to
  the entry \<open>e\<close> of the directory \<open>d'\<close>, either in \<open>es\<close> itself or below a directory of
  \<open>es\<close> that is not named \<open>.git\<close> and not matched as ignored.
\<close>

fun reaches :: "jsstring list \<Rightarrow> jsstring \<Rightarrow> fsnode list \<Rightarrow> jsstring \<Rightarrow> fsnode \<Rightarrow> bool" where
  "reaches ls d [] d' e = False"
| "reaches ls d (x # es) d' e =
     ((d' = d \<and> e = x)
      \<or> (case x of
            Dir n sub \<Rightarrow>
              n \<noteq> js ''.git'' \<and> \<not> isIgnored ls (relJoin d n) \<and> reaches ls (relJoin d n) sub d' e
          | _ \<Rightarrow> False)
      \<or> reaches ls d es d' e)"

section \<open>Lemmas about strings\<close>

lemma splitOn_not_Nil: "splitOn sep s \<noteq> []"
  by (induction s) (auto split: list.splits)

lemma joinWith_Cons_Cons: "joinWith sep ((c # p) # ps) = c # joinWith sep (p # ps)"
  by (cases ps) simp_all

lemma joinWith_Nil_Cons: "ps \<noteq> [] \<Longrightarrow> joinWith sep ([] # ps) = sep @ joinWith sep ps"
  by (cases ps) simp_all

lemma joinWith_splitOn: "joinWith [sep] (splitOn sep s) = s"
proof (induction s)
  case Nil
  show ?case by simp
next
  case (Cons c cs)
  show ?case
  proof (cases "c = sep")
    case True
    with Cons show ?thesis
      by (simp add: joinWith_Nil_Cons splitOn_not_Nil)
  next
    case False
    obtain p ps where p: "splitOn sep cs = p # ps"
      using splitOn_not_Nil [of sep cs] by (cases "splitOn sep cs") auto
    with False Cons show ?thesis
      by (simp add: joinWith_Cons_Cons)
  qed
qed

lemma toPosix_id: "toPosix s = s"
  by (simp add: toPosix_def joinWith_splitOn)

lemma splitOn_append:
  "splitOn sep (a @ sep # b) = splitOn sep a @ splitOn sep b"
proof (induction a)
  case Nil
  show ?case by simp
next
  case (Cons c cs)
  obtain p ps where p: "splitOn sep cs = p # ps"
    using splitOn_not_Nil [of sep cs] by (cases "splitOn sep cs") auto
  with Cons show ?case by simp
qed

lemma splitOn_absent: "sep \<notin> set s \<Longrightarrow> splitOn sep s = [s]"
  by (induction s) auto

lemma splitOn_subset: "p \<in> set (splitOn sep s) \<Longrightarrow> set p \<subseteq> set s"
proof (induction s arbitrary: p)
  case Nil
  then show ?case by simp
next
  case (Cons c cs)
  obtain q qs where q: "splitOn sep cs = q # qs"
    using splitOn_not_Nil [of sep cs] by (cases "splitOn sep cs") auto
  show ?case
  proof (cases "c = sep")
    case True
    with Cons.prems have "p = [] \<or> p \<in> set (splitOn sep cs)" by simp
    with Cons.IH show ?thesis by auto
  next
    case False
    with Cons.prems q have "p = c # q \<or> p \<in> set qs" by simp
    moreover have "set q \<subseteq> set cs" using Cons.IH [of q] q by simp
    moreover have "p \<in> set qs \<Longrightarrow> set p \<subseteq> set cs" using Cons.IH [of p] q by simp
    ultimately show ?thesis by auto
  qed
qed

subsection \<open>trim\<close>

lemma trim_Nil_iff: "trim s = [] \<longleftrightarrow> list_all isWhiteSpace s"
proof
  assume "trim s = []"
  then have "dropWhile isWhiteSpace (rev (dropWhile isWhiteSpace s)) = []"
    by (simp add: trim_def)
  then have a: "\<forall>x\<in>set (dropWhile isWhiteSpace s). isWhiteSpace x"
    by (simp add: dropWhile_eq_Nil_conv)
  have "dropWhile isWhiteSpace s = []"
  proof (rule ccontr)
    assume ne: "dropWhile isWhiteSpace s \<noteq> []"
    then have "\<not> isWhiteSpace (hd (dropWhile isWhiteSpace s))"
      by (rule hd_dropWhile)
    moreover from ne have "hd (dropWhile isWhiteSpace s) \<in> set (dropWhile isWhiteSpace s)"
      by (rule hd_in_set)
    ultimately show False using a by blast
  qed
  then show "list_all isWhiteSpace s"
    by (simp add: dropWhile_eq_Nil_conv list_all_iff)
next
  assume "list_all isWhiteSpace s"
  then have d: "dropWhile isWhiteSpace s = []"
    by (simp add: dropWhile_eq_Nil_conv list_all_iff)
  show "trim s = []" unfolding trim_def d by simp
qed

lemma trim_snoc_ws: "isWhiteSpace c \<Longrightarrow> trim (s @ [c]) = trim s"
proof (cases "list_all isWhiteSpace s")
  case True
  assume "isWhiteSpace c"
  with True have "list_all isWhiteSpace (s @ [c])" by simp
  with True show ?thesis by (simp only: trim_Nil_iff [symmetric])
next
  case False
  assume c: "isWhiteSpace c"
  from False obtain x where "x \<in> set s" "\<not> isWhiteSpace x"
    by (auto simp: list_all_iff)
  then have "dropWhile isWhiteSpace (s @ [c]) = dropWhile isWhiteSpace s @ [c]"
    by (rule dropWhile_append1)
  with c show ?thesis by (simp add: trim_def)
qed

lemma trim_clean:
  "s \<noteq> [] \<Longrightarrow> \<not> isWhiteSpace (hd s) \<Longrightarrow> \<not> isWhiteSpace (last s) \<Longrightarrow> trim s = s"
proof -
  assume ne: "s \<noteq> []" and h: "\<not> isWhiteSpace (hd s)" and l: "\<not> isWhiteSpace (last s)"
  from ne h have 1: "dropWhile isWhiteSpace s = s" by (cases s) simp_all
  from ne l have 2: "dropWhile isWhiteSpace (rev s) = rev s"
    by (cases "rev s") (simp_all add: last_rev [symmetric] hd_rev)
  show ?thesis by (simp add: trim_def 1 2)
qed

subsection \<open>Lines of the ignore file\<close>

definition crRel :: "jsstring \<Rightarrow> jsstring \<Rightarrow> bool" where
  "crRel p q = (p = q \<or> q = p @ [chCR])"

lemma splitLines_not_Nil: "splitLines s \<noteq> []"
  by (induction s rule: splitLines.induct) (auto split: list.splits)

lemma splitLines_splitOn: "list_all2 crRel (splitLines s) (splitOn chLF s)"
proof (induction s rule: splitLines.induct)
  case 1
  show ?case by (simp add: crRel_def)
next
  case (2 c cs)
  show ?case
  proof (cases "c = chLF")
    case True
    moreover have "crRel [] []" by (simp add: crRel_def)
    ultimately show ?thesis using 2(1) by simp
  next
    case nl: False
    show ?thesis
    proof (cases "c = chCR \<and> cs \<noteq> [] \<and> hd cs = chLF")
      case True
      then obtain cs' where cs: "cs = chLF # cs'" by (cases cs) auto
      from 2(2) nl True have "list_all2 crRel (splitLines cs') (splitOn chLF cs')"
        by (simp add: cs)
      moreover have "crRel [] [chCR]" by (simp add: crRel_def)
      ultimately show ?thesis using True cs by simp
    next
      case False
      with 2(3) nl have IH: "list_all2 crRel (splitLines cs) (splitOn chLF cs)" by simp
      obtain p ps where p: "splitLines cs = p # ps"
        using splitLines_not_Nil [of cs] by (cases "splitLines cs") auto
      obtain q qs where q: "splitOn chLF cs = q # qs"
        using splitOn_not_Nil [of chLF cs] by (cases "splitOn chLF cs") auto
      from IH p q have "crRel p q" "list_all2 crRel ps qs" by simp_all
      moreover from \<open>crRel p q\<close> have "crRel (c # p) (c # q)"
        by (auto simp: crRel_def)
      ultimately have "list_all2 crRel ((c # p) # ps) ((c # q) # qs)"
        by simp
      moreover from nl False p have "splitLines (c # cs) = (c # p) # ps" by auto
      moreover from nl q have "splitOn chLF (c # cs) = (c # q) # qs" by simp
      ultimately show ?thesis by simp
    qed
  qed
qed

lemma crRel_trim: "crRel p q \<Longrightarrow> trim p = trim q"
  by (auto simp: crRel_def trim_snoc_ws isWhiteSpace_def)

lemma map_trim_splitLines: "map trim (splitLines s) = map trim (splitOn chLF s)"
proof -
  have "list_all2 crRel xs ys \<Longrightarrow> map trim xs = map trim ys" for xs ys
    by (induction rule: list_all2_induct) (simp_all add: crRel_trim)
  with splitLines_splitOn show ?thesis by blast
qed

lemma parseLines_alt:
  "parseLines s =
     filter (\<lambda>l. length l > 0 \<and> \<not> startsWith l [chHash]) (map trim (splitOn chLF s))"
  by (simp add: parseLines_def map_trim_splitLines)

lemma parseLines_append: "parseLines (a @ chLF # b) = parseLines a @ parseLines b"
  by (simp add: parseLines_alt splitOn_append)

lemma parseLines_Nil: "parseLines [] = []"
  by (simp add: parseLines_def trim_def)

lemma parseLines_blank: "trim s = [] \<Longrightarrow> parseLines s = []"
proof -
  assume "trim s = []"
  then have ws: "list_all isWhiteSpace s" by (simp add: trim_Nil_iff)
  have "trim p = []" if "p \<in> set (splitOn chLF s)" for p
  proof -
    from splitOn_subset [OF that] ws have "list_all isWhiteSpace p"
      by (auto simp: list_all_iff)
    then show ?thesis by (simp add: trim_Nil_iff)
  qed
  then show ?thesis
    by (auto simp: parseLines_alt filter_empty_conv)
qed

lemma parseLines_snoc_LF: "parseLines (x @ [chLF]) = parseLines x"
proof -
  have "parseLines (x @ chLF # []) = parseLines x @ parseLines []"
    by (rule parseLines_append)
  then show ?thesis by (simp add: parseLines_Nil)
qed

lemma parseLines_join:
  "parseLines (joinWith [chLF] ls @ [chLF]) = concat (map parseLines ls)"
proof (induction ls)
  case Nil
  have "parseLines ([] @ [chLF]) = parseLines []" by (rule parseLines_snoc_LF)
  then show ?case by (simp add: parseLines_Nil)
next
  case (Cons x xs)
  show ?case
  proof (cases xs)
    case Nil
    then show ?thesis by (simp add: parseLines_snoc_LF)
  next
    case (Cons y ys)
    have "parseLines (x @ chLF # (joinWith [chLF] (y # ys) @ [chLF]))
        = parseLines x @ parseLines (joinWith [chLF] (y # ys) @ [chLF])"
      by (rule parseLines_append)
    with Cons.IH Cons show ?thesis by simp
  qed
qed

lemma parseLines_toWrite:
  "parseLines (toWrite existing toAppend) = parseLines existing @ concat (map parseLines toAppend)"
proof (cases "existing \<noteq> [] \<and> length (trim existing) > 0")
  case True
  then have "toWrite existing toAppend = existing @ chLF # (joinWith [chLF] toAppend @ [chLF])"
    by (simp add: toWrite_def)
  moreover have "parseLines (existing @ chLF # (joinWith [chLF] toAppend @ [chLF]))
      = parseLines existing @ parseLines (joinWith [chLF] toAppend @ [chLF])"
    by (rule parseLines_append)
  ultimately show ?thesis by (simp only: parseLines_join)
next
  case False
  then have "trim existing = []" by (auto simp: trim_def)
  then have "parseLines existing = []" by (rule parseLines_blank)
  moreover from False have "toWrite existing toAppend = joinWith [chLF] toAppend @ [chLF]"
    by (simp add: toWrite_def)
  ultimately show ?thesis by (simp add: parseLines_join)
qed

lemma parseLines_single:
  "chLF \<notin> set l \<Longrightarrow> trim l = l \<Longrightarrow> l \<noteq> [] \<Longrightarrow> hd l \<noteq> chHash \<Longrightarrow> parseLines l = [l]"
  by (cases l) (simp_all add: parseLines_alt splitOn_absent startsWith_def)

lemma parseLines_comment:
  "chLF \<notin> set l \<Longrightarrow> parseLines (chHash # l) = []"
proof -
  assume "chLF \<notin> set l"
  then have s: "splitOn chLF (chHash # l) = [chHash # l]"
    by (simp add: splitOn_absent)
  have "\<exists>ys. dropWhile isWhiteSpace (xs @ [chHash]) = ys @ [chHash]" for xs
    by (induction xs) (simp_all add: isWhiteSpace_def)
  then obtain ys where "dropWhile isWhiteSpace (rev l @ [chHash]) = ys @ [chHash]"
    by blast
  then have "trim (chHash # l) = chHash # rev ys"
    by (simp add: trim_def isWhiteSpace_def)
  then show ?thesis
    unfolding parseLines_alt s by (simp add: startsWith_def)
qed

section \<open>Lemmas about the matcher\<close>

lemma isIgnored_iff:
  "isIgnored ls rel \<longleftrightarrow> (\<exists>pat\<in>set ls. pat = rel \<or> dirHit pat rel \<or> reHit pat rel)"
  by (induction ls) (auto simp: Let_def toPosix_id dirHit_def reHit_def split: sum.splits)

lemma found_iff: "found ls req \<longleftrightarrow> (\<exists>l\<in>set ls. l = req \<or> reHit l req)"
  by (induction ls) (auto simp: reHit_def split: sum.splits)


lemma isIgnored_mono: "set ls \<subseteq> set ls' \<Longrightarrow> isIgnored ls p \<Longrightarrow> isIgnored ls' p"
  unfolding isIgnored_iff by blast

lemma found_mono: "set ls \<subseteq> set ls' \<Longrightarrow> found ls p \<Longrightarrow> found ls' p"
  unfolding found_iff by blast

lemma found_self: "req \<in> set ls \<Longrightarrow> found ls req"
  unfolding found_iff by blast

lemma isIgnored_self: "p \<in> set ls \<Longrightarrow> isIgnored ls p"
  unfolding isIgnored_iff by blast

lemma isIgnored_dir: "p @ [chSlash] \<in> set ls \<Longrightarrow> isIgnored ls p"
proof -
  assume a: "p @ [chSlash] \<in> set ls"
  have "dirHit (p @ [chSlash]) p" by (simp add: dirHit_def endsWithChar_def)
  with a show ?thesis unfolding isIgnored_iff by blast
qed

text \<open>With the error written out, both checks return the value of the total versions.\<close>

lemma isIgnoredE_isIgnored: "isIgnoredE ls relPath = Inr (isIgnored ls relPath)"
proof (induction ls)
  case Nil
  show ?case by simp
next
  case (Cons pat pats)
  show ?case
  proof (cases "newRegExp (globSource pat)")
    case (Inl e)
    with Cons show ?thesis by (auto simp: Let_def tryCatch_def)
  next
    case (Inr re)
    with Cons show ?thesis by (auto simp: Let_def tryCatch_def)
  qed
qed

lemma foundE_found: "foundE ls req = Inr (found ls req)"
proof (induction ls)
  case Nil
  show ?case by simp
next
  case (Cons l ls)
  show ?case
  proof (cases "newRegExp (globSource l)")
    case (Inl e)
    with Cons show ?thesis by (auto simp: tryCatch_def)
  next
    case (Inr re)
    with Cons show ?thesis by (auto simp: tryCatch_def)
  qed
qed

section \<open>The translation stays inside the modelled grammar\<close>

fun escaped :: "jsstring \<Rightarrow> bool" where
  "escaped [] = True"
| "escaped [c] = (\<not> isMeta c)"
| "escaped (c # d # cs) =
     (if c = chBackslash then isMeta d \<and> escaped cs else \<not> isMeta c \<and> escaped (d # cs))"

fun starred :: "jsstring \<Rightarrow> bool" where
  "starred [] = True"
| "starred [c] = (\<not> isMeta c \<or> c = chDot)"
| "starred (c # d # cs) =
     (if c = chBackslash then isMeta d \<and> starred cs
      else (\<not> isMeta c \<or> c = chDot) \<and> starred (d # cs))"

definition lexes :: "jsstring \<Rightarrow> bool" where
  "lexes s = (\<exists>ts. lexRegex s = Inr ts)"

lemma meta_facts:
  "isMeta chBackslash" "isMeta chDot" "isMeta chQuery" "\<not> isMeta chStar"
  by (simp_all add: isMeta_def metaChars_def js_Cons js_Nil)

lemma escaped_plain: "c \<noteq> chBackslash \<Longrightarrow> escaped (c # s) = (\<not> isMeta c \<and> escaped s)"
  by (cases s) simp_all

lemma starred_plain:
  "c \<noteq> chBackslash \<Longrightarrow> starred (c # s) = ((\<not> isMeta c \<or> c = chDot) \<and> starred s)"
  by (cases s) simp_all

lemma escaped_escapeMeta: "escaped (escapeMeta s)"
proof (induction s)
  case Nil
  show ?case by simp
next
  case (Cons c cs)
  show ?case
  proof (cases "isMeta c")
    case True
    with Cons show ?thesis by simp
  next
    case False
    with meta_facts(1) have "c \<noteq> chBackslash" by auto
    with False Cons show ?thesis by (simp add: escaped_plain)
  qed
qed

lemma restoreStar_plain:
  "c \<noteq> chBackslash \<Longrightarrow> restoreStar (c # s) = c # restoreStar s"
  by (cases s) simp_all

lemma restoreQuery_plain:
  "c \<noteq> chBackslash \<Longrightarrow> restoreQuery (c # s) = c # restoreQuery s"
  by (cases s) simp_all

lemma starred_restoreStar: "escaped s \<Longrightarrow> starred (restoreStar s)"
proof (induction "length s" arbitrary: s rule: less_induct)
  case less
  show ?case
  proof (cases s)
    case Nil
    then show ?thesis by simp
  next
    case (Cons c s1)
    show ?thesis
    proof (cases "c = chBackslash")
      case False
      with less.prems Cons have "\<not> isMeta c" "escaped s1" by (simp_all add: escaped_plain)
      moreover from less.hyps [of s1] Cons \<open>escaped s1\<close> have "starred (restoreStar s1)" by simp
      ultimately show ?thesis using False Cons
        by (simp add: restoreStar_plain starred_plain)
    next
      case True
      show ?thesis
      proof (cases s1)
        case Nil
        with less.prems Cons True show ?thesis by (simp add: meta_facts)
      next
        case c2: (Cons d s2)
        from less.prems Cons True c2 have d: "isMeta d" and e2: "escaped s2" by simp_all
        from d meta_facts(4) have ds: "d \<noteq> chStar" by auto
        show ?thesis
        proof (cases "d = chBackslash \<and> s2 \<noteq> [] \<and> hd s2 = chStar")
          case True
          then obtain s3 where s3: "s2 = chStar # s3" by (cases s2) auto
          from e2 s3 have "escaped s3" by (simp add: escaped_plain)
          with less.hyps [of s3] Cons c2 s3 have "starred (restoreStar s3)" by simp
          with Cons \<open>c = chBackslash\<close> c2 True s3 ds show ?thesis
            by (simp add: meta_facts starred_plain)
        next
          case False
          then have "restoreStar (d # s2) = d # restoreStar s2"
            by (cases s2) auto
          moreover from less.hyps [of s2] Cons c2 e2 have "starred (restoreStar s2)" by simp
          ultimately show ?thesis using Cons \<open>c = chBackslash\<close> c2 d ds
            by simp
        qed
      qed
    qed
  qed
qed

lemma lexes_simps:
  "lexes []"
  "isMeta d \<Longrightarrow> lexes (chBackslash # d # s) = lexes s"
  "c \<noteq> chBackslash \<Longrightarrow> \<not> isMeta c \<or> c = chDot \<Longrightarrow> lexes (c # s) = lexes s"
proof -
  show "lexes []" by (simp add: lexes_def)
  show "isMeta d \<Longrightarrow> lexes (chBackslash # d # s) = lexes s"
    by (auto simp: lexes_def consR_def split: sum.splits)
  assume c: "c \<noteq> chBackslash" "\<not> isMeta c \<or> c = chDot"
  have "c \<in> set rawUnsupported \<Longrightarrow> isMeta c \<and> c \<noteq> chDot"
    by (auto simp: rawUnsupported_def isMeta_def metaChars_def js_Cons js_Nil)
  with c have "c \<notin> set rawUnsupported" by blast
  with c show "lexes (c # s) = lexes s"
    by (auto simp: lexes_def consR_def split: sum.splits)
qed

lemma lexes_restoreQuery: "starred s \<Longrightarrow> lexes (restoreQuery s)"
proof (induction "length s" arbitrary: s rule: less_induct)
  case less
  show ?case
  proof (cases s)
    case Nil
    then show ?thesis by (simp add: lexes_simps)
  next
    case (Cons c s1)
    show ?thesis
    proof (cases "c = chBackslash")
      case False
      with less.prems Cons have c: "\<not> isMeta c \<or> c = chDot" and "starred s1"
        by (simp_all add: starred_plain)
      with less.hyps [of s1] Cons have "lexes (restoreQuery s1)" by simp
      with False c Cons show ?thesis
        by (simp add: restoreQuery_plain lexes_simps)
    next
      case True
      show ?thesis
      proof (cases s1)
        case Nil
        with less.prems Cons True show ?thesis by (simp add: meta_facts)
      next
        case c2: (Cons d s2)
        from less.prems Cons True c2 have d: "isMeta d" and e2: "starred s2" by simp_all
        from less.hyps [of s2] Cons c2 e2 have IH: "lexes (restoreQuery s2)" by simp
        show ?thesis
        proof (cases "d = chQuery")
          case True
          with Cons \<open>c = chBackslash\<close> c2 IH show ?thesis
            by (simp add: lexes_simps meta_facts)
        next
          case nq: False
          have "restoreQuery (d # s2) = d # restoreQuery s2"
          proof (cases s2)
            case Nil
            then show ?thesis by simp
          next
            case (Cons x s3)
            have "\<not> (d = chBackslash \<and> x = chQuery)"
            proof
              assume "d = chBackslash \<and> x = chQuery"
              with e2 Cons have "\<not> isMeta chQuery \<or> chQuery = (chDot :: jschar)"
                by (simp add: starred_plain)
              with meta_facts(3) show False by simp
            qed
            with Cons show ?thesis by auto
          qed
          with Cons \<open>c = chBackslash\<close> c2 nq d IH show ?thesis
            by (simp add: lexes_simps)
        qed
      qed
    qed
  qed
qed

lemma lexes_Cons:
  "c \<noteq> chBackslash \<Longrightarrow> lexes (c # s) = (c \<notin> set rawUnsupported \<and> lexes s)"
proof -
  assume c: "c \<noteq> chBackslash"
  have "c \<in> set rawUnsupported \<Longrightarrow>
      c \<noteq> chCaret \<and> c \<noteq> chDollar \<and> c \<noteq> chStar \<and> c \<noteq> chDot"
    by (auto simp: rawUnsupported_def js_Cons js_Nil)
  with c show ?thesis
    by (auto simp: lexes_def consR_def split: sum.splits)
qed

lemma lexes_Backslash:
  "lexes (chBackslash # s) = (\<exists>d ds. s = d # ds \<and> isMeta d \<and> lexes ds)"
  by (cases s) (auto simp: lexes_def consR_def split: sum.splits)

lemma lexes_append: "lexes s \<Longrightarrow> lexes t \<Longrightarrow> lexes (s @ t)"
proof (induction "length s" arbitrary: s rule: less_induct)
  case less
  show ?case
  proof (cases s)
    case Nil
    with less.prems show ?thesis by simp
  next
    case (Cons c s1)
    show ?thesis
    proof (cases "c = chBackslash")
      case True
      with less.prems(1) Cons obtain d ds where
        s1: "s1 = d # ds" and d: "isMeta d" and l: "lexes ds"
        by (auto simp: lexes_Backslash)
      from less.hyps [of ds] Cons s1 l less.prems(2) have "lexes (ds @ t)" by simp
      with Cons True s1 d show ?thesis by (simp add: lexes_Backslash)
    next
      case False
      with less.prems(1) Cons have "c \<notin> set rawUnsupported" "lexes s1"
        by (simp_all add: lexes_Cons)
      moreover from less.hyps [of s1] Cons \<open>lexes s1\<close> less.prems(2) have "lexes (s1 @ t)"
        by simp
      ultimately show ?thesis using False Cons by (simp add: lexes_Cons)
    qed
  qed
qed

lemma globSource_lexes: "lexes (globSource pat)"
proof -
  have "lexes (globEsc pat)"
    unfolding globEsc_def
    by (intro lexes_restoreQuery starred_restoreStar escaped_escapeMeta)
  moreover have "lexes [chDollar]"
    by (simp add: lexes_def consR_def rawUnsupported_def js_Cons js_Nil)
  ultimately have "lexes (globEsc pat @ [chDollar])" by (rule lexes_append)
  moreover have "chCaret \<notin> set rawUnsupported"
    by (simp add: rawUnsupported_def js_Cons js_Nil)
  ultimately show ?thesis
    by (simp add: globSource_def lexes_Cons)
qed

lemma quantify_supported: "quantify ts \<noteq> Inl Unsupported"
  by (induction ts rule: quantify.induct) (auto simp: consR_def split: sum.splits)

lemma globSource_supported: "newRegExp (globSource pat) \<noteq> Inl Unsupported"
  using globSource_lexes [of pat] quantify_supported
  by (auto simp: newRegExp_def lexes_def)

section \<open>Lemmas about the walk\<close>

definition parentSet :: "jsstring \<Rightarrow> jsstring set" where
  "parentSet d = (if toPosix d \<noteq> [] \<and> toPosix d \<noteq> js ''.'' then {toPosix d} else {})"

lemma set_pushParent: "set (pushParent d acc) = set acc \<union> parentSet d"
  by (auto simp: pushParent_def parentSet_def Let_def)

lemma distinct_pushParent: "distinct acc \<Longrightarrow> distinct (pushParent d acc)"
  by (simp add: pushParent_def Let_def)

fun detected :: "jsstring list \<Rightarrow> jsstring \<Rightarrow> fsnode list \<Rightarrow> jsstring set" where
  "detected ls d [] = {}"
| "detected ls d (e # es) =
     (if isIgnored ls (toPosix (relJoin d (nodeName e))) \<and> isDirectory e then {}
      else (case e of
              File n \<Rightarrow> {}
            | Unlistable n \<Rightarrow> if n = js ''.git'' then parentSet d else {}
            | Dir n sub \<Rightarrow>
                if n = js ''.git'' then parentSet d
                else detected ls (toPosix (relJoin d n)) sub))
     \<union> detected ls d es"

lemma set_walk: "set (walk ls d es acc) = set acc \<union> detected ls d es"
  by (induction ls d es acc rule: walk.induct)
     (simp_all add: Let_def set_pushParent Un_assoc Un_left_commute split: fsnode.splits)

lemma distinct_walk: "distinct acc \<Longrightarrow> distinct (walk ls d es acc)"
  by (induction ls d es acc rule: walk.induct)
     (simp_all add: Let_def distinct_pushParent split: fsnode.splits)

lemma detected_mono:
  assumes "\<And>p. isIgnored l1 p \<Longrightarrow> isIgnored l2 p"
  shows "detected l2 d es \<subseteq> detected l1 d es"
  using assms
  by (induction l2 d es rule: detected.induct) (auto split: fsnode.splits)

lemma set_walkRoot_mono:
  assumes "\<And>p. isIgnored l1 p \<Longrightarrow> isIgnored l2 p"
  shows "set (walkRoot l2 r) \<subseteq> set (walkRoot l1 r)"
  using detected_mono [OF assms]
  by (cases r) (simp_all add: walkRoot_def set_walk)

text \<open>Entries that are not directories have no effect on the walk.\<close>

lemma walk_filter_dirs: "walk ls d (filter isDirectory es) acc = walk ls d es acc"
  by (induction ls d es acc rule: walk.induct) (simp_all add: Let_def split: fsnode.splits)

lemma reaches_detected:
  "reaches ls d es d' e \<Longrightarrow> isDirectory e \<Longrightarrow> nodeName e = js ''.git'' \<Longrightarrow>
   \<not> isIgnored ls (relJoin d' (js ''.git'')) \<Longrightarrow> parentSet d' \<subseteq> detected ls d es"
proof (induction ls d es d' e rule: reaches.induct)
  case (1 ls d d' e)
  then show ?case by simp
next
  case (2 ls d x es d' e)
  from 2(3) consider
      (here) "d' = d" "e = x"
    | (below) n sub where "x = Dir n sub" "n \<noteq> js ''.git''" "\<not> isIgnored ls (relJoin d n)"
        "reaches ls (relJoin d n) sub d' e"
    | (later) "reaches ls d es d' e"
    by (auto split: fsnode.splits)
  then show ?case
  proof cases
    case here
    with 2(4,5,6) show ?thesis
      by (cases x) (auto simp: toPosix_id)
  next
    case below
    from 2(1) [OF below(1,4) 2(4,5,6)] below(1,2,3) show ?thesis
      by (auto simp: toPosix_id)
  next
    case later
    from 2(2) [OF later 2(4,5,6)] show ?thesis by auto
  qed
qed

lemma detected_reaches:
  "p \<in> detected ls d es \<Longrightarrow>
   \<exists>d' e. reaches ls d es d' e \<and> isDirectory e \<and> nodeName e = js ''.git''
      \<and> \<not> isIgnored ls (relJoin d' (js ''.git'')) \<and> p \<in> parentSet d'"
proof (induction ls d es rule: detected.induct)
  case (1 ls d)
  then show ?case by simp
next
  case (2 ls d e es)
  show ?case
  proof (cases "p \<in> detected ls d es")
    case True
    from 2(2) [OF True] show ?thesis by auto
  next
    case False
    with 2(3) have ni: "\<not> (isIgnored ls (relJoin d (nodeName e)) \<and> isDirectory e)"
      by (auto simp: toPosix_id split: if_splits)
    show ?thesis
    proof (cases e)
      case (File n)
      with False 2(3) show ?thesis by (simp split: if_splits)
    next
      case (Unlistable n)
      with False 2(3) ni have "n = js ''.git''" "p \<in> parentSet d"
        by (auto simp: toPosix_id split: if_splits)
      with Unlistable ni have
        "reaches ls d (e # es) d e \<and> isDirectory e \<and> nodeName e = js ''.git''
          \<and> \<not> isIgnored ls (relJoin d (js ''.git'')) \<and> p \<in> parentSet d"
        by auto
      then show ?thesis by blast
    next
      case (Dir n sub)
      show ?thesis
      proof (cases "n = js ''.git''")
        case True
        with False 2(3) ni Dir have "p \<in> parentSet d"
          by (auto simp: toPosix_id split: if_splits)
        with Dir ni True have
          "reaches ls d (e # es) d e \<and> isDirectory e \<and> nodeName e = js ''.git''
            \<and> \<not> isIgnored ls (relJoin d (js ''.git'')) \<and> p \<in> parentSet d"
          by auto
        then show ?thesis by blast
      next
        case ng: False
        with False 2(3) ni Dir have sub: "p \<in> detected ls (toPosix (relJoin d n)) sub"
          by (auto simp: toPosix_id split: if_splits)
        from ni Dir have ni': "\<not> isIgnored ls (relJoin d n)" by simp
        from ni Dir have c: "\<not> (isIgnored ls (toPosix (relJoin d (nodeName e))) \<and> isDirectory e)"
          by (simp add: toPosix_id)
        from 2(1) [OF c Dir ng sub] obtain d' e' where
          r: "reaches ls (relJoin d n) sub d' e'" and
          rest: "isDirectory e'" "nodeName e' = js ''.git''"
            "\<not> isIgnored ls (relJoin d' (js ''.git''))" "p \<in> parentSet d'"
          by (auto simp: toPosix_id)
        from r Dir ng ni' have "reaches ls d (e # es) d' e'" by simp
        with rest show ?thesis by blast
      qed
    qed
  qed
qed

lemma walkRoot_iff:
  "p \<in> set (walkRoot ls (Dir r es)) \<longleftrightarrow>
   (\<exists>d e. reaches ls [] es d e \<and> isDirectory e \<and> nodeName e = js ''.git''
      \<and> \<not> isIgnored ls (relJoin d (js ''.git'')) \<and> d \<noteq> [] \<and> d \<noteq> js ''.'' \<and> p = d)"
proof
  assume "p \<in> set (walkRoot ls (Dir r es))"
  then have "p \<in> detected ls [] es" by (simp add: walkRoot_def set_walk)
  from detected_reaches [OF this] show
    "\<exists>d e. reaches ls [] es d e \<and> isDirectory e \<and> nodeName e = js ''.git''
      \<and> \<not> isIgnored ls (relJoin d (js ''.git'')) \<and> d \<noteq> [] \<and> d \<noteq> js ''.'' \<and> p = d"
    by (auto simp: parentSet_def toPosix_id split: if_splits)
next
  assume "\<exists>d e. reaches ls [] es d e \<and> isDirectory e \<and> nodeName e = js ''.git''
      \<and> \<not> isIgnored ls (relJoin d (js ''.git'')) \<and> d \<noteq> [] \<and> d \<noteq> js ''.'' \<and> p = d"
  then obtain e where "reaches ls [] es p e" "isDirectory e" "nodeName e = js ''.git''"
      "\<not> isIgnored ls (relJoin p (js ''.git''))" and p: "p \<noteq> []" "p \<noteq> js ''.''"
    by blast
  from reaches_detected [OF this(1,2,3,4)] p have "p \<in> detected ls [] es"
    by (auto simp: parentSet_def toPosix_id)
  then show "p \<in> set (walkRoot ls (Dir r es))" by (simp add: walkRoot_def set_walk)
qed

section \<open>Lemmas about one run\<close>

lemma checkRequired_eq:
  "checkRequired ls reqs acc =
     acc @ concat (map (\<lambda>req. if found ls req then []
                        else [js ''# Added by Autocommiter: ensure '' @ req, req]) reqs)"
  by (induction reqs arbitrary: acc) simp_all

lemma checkNested_eq:
  "checkNested st ls ps acc =
     acc @ concat (map (\<lambda>p. [js ''# Added by Autocommiter: ignore nested repo '' @ p,
                             p @ [chSlash]])
                       (filter (needsIgnore st ls) ps))"
  by (induction ps arbitrary: acc) (simp_all add: needsIgnore_def)

lemma queued_eq:
  "queued st =
     concat (map (\<lambda>req. if found (parseLines (readExisting st)) req then []
                     else [js ''# Added by Autocommiter: ensure '' @ req, req]) required)
     @ concat (map (\<lambda>p. [js ''# Added by Autocommiter: ignore nested repo '' @ p,
                           p @ [chSlash]]) (queuedNested st))"
  by (simp add: queued_def queuedNested_def Let_def checkNested_eq checkRequired_eq)

lemma queued_required:
  "req \<in> set required \<Longrightarrow> found (parseLines (readExisting st)) req \<or> req \<in> set (queued st)"
  unfolding queued_eq by auto

lemma queued_nested:
  "p \<in> set (queuedNested st) \<Longrightarrow> p @ [chSlash] \<in> set (queued st)"
  unfolding queued_eq by auto

lemma parseLines_required: "req \<in> set required \<Longrightarrow> parseLines req = [req]"
proof -
  assume "req \<in> set required"
  then have "chLF \<notin> set req \<and> req \<noteq> [] \<and> \<not> isWhiteSpace (hd req)
      \<and> \<not> isWhiteSpace (last req) \<and> hd req \<noteq> chHash"
    by (auto simp: required_def js_Cons js_Nil isWhiteSpace_def)
  then show ?thesis
    by (simp add: parseLines_single trim_clean)
qed

lemma parseLines_cleanDir: "cleanPath p \<Longrightarrow> parseLines (p @ [chSlash]) = [p @ [chSlash]]"
proof -
  assume "cleanPath p"
  then have p: "p \<noteq> []" "\<not> isWhiteSpace (hd p)" "hd p \<noteq> chHash" "chLF \<notin> set p"
    by (simp_all add: cleanPath_def)
  have "\<not> isWhiteSpace chSlash" by (simp add: isWhiteSpace_def)
  with p have "trim (p @ [chSlash]) = p @ [chSlash]"
    by (intro trim_clean) simp_all
  with p show ?thesis
    by (intro parseLines_single) simp_all
qed

lemma parseLines_mem_concat:
  "l \<in> set ls \<Longrightarrow> parseLines l = [l] \<Longrightarrow> l \<in> set (concat (map parseLines ls))"
  by (induction ls) auto

lemma linesAfter_eq:
  "linesAfter st =
     parseLines (readExisting st) @ concat (map parseLines (queued st))"
proof (cases "queued st = []")
  case True
  then show ?thesis
    by (simp add: linesAfter_def ensureGitignoreSafety_def Let_def)
next
  case False
  then have "readExisting (fst (ensureGitignoreSafety st))
      = toWrite (readExisting st) (queued st)"
    by (simp add: ensureGitignoreSafety_def Let_def readExisting_def)
  then show ?thesis
    by (simp add: linesAfter_def parseLines_toWrite)
qed

lemma linesAfter_old: "set (parseLines (readExisting st)) \<subseteq> set (linesAfter st)"
  by (simp add: linesAfter_eq)

lemma linesAfter_required: "req \<in> set required \<Longrightarrow> found (linesAfter st) req"
proof -
  assume r: "req \<in> set required"
  from queued_required [OF r, of st] show ?thesis
  proof
    assume "found (parseLines (readExisting st)) req"
    with linesAfter_old show ?thesis by (rule found_mono)
  next
    assume "req \<in> set (queued st)"
    with parseLines_required [OF r] have "req \<in> set (concat (map parseLines (queued st)))"
      by (rule parseLines_mem_concat [rotated])
    then have "req \<in> set (linesAfter st)" by (simp add: linesAfter_eq)
    then show ?thesis by (rule found_self)
  qed
qed

lemma linesAfter_nested:
  assumes "p \<in> set (queuedNested st)" "cleanPath p"
  shows "isIgnored (linesAfter st) p"
proof -
  from queued_nested [OF assms(1)] parseLines_cleanDir [OF assms(2)]
  have "p @ [chSlash] \<in> set (concat (map parseLines (queued st)))"
    by (rule parseLines_mem_concat)
  then have "p @ [chSlash] \<in> set (linesAfter st)" by (simp add: linesAfter_eq)
  then show ?thesis by (rule isIgnored_dir)
qed

lemma after_fields:
  "root (fst (ensureGitignoreSafety st)) = root st"
  "gitmodulePaths (fst (ensureGitignoreSafety st)) = gitmodulePaths st"
  "subGitmodules (fst (ensureGitignoreSafety st)) = subGitmodules st"
  by (simp_all add: ensureGitignoreSafety_def Let_def)

lemma second_run_queues_nothing:
  assumes "list_all cleanPath (queuedNested st)"
  shows "queued (fst (ensureGitignoreSafety st)) = []"
proof -
  let ?st' = "fst (ensureGitignoreSafety st)"
  let ?l = "parseLines (readExisting st)"
  let ?l' = "linesAfter st"
  have l': "parseLines (readExisting ?st') = ?l'" by (simp add: linesAfter_def)
  have mono: "isIgnored ?l p \<Longrightarrow> isIgnored ?l' p" for p
    using linesAfter_old by (rule isIgnored_mono)
  have req: "found ?l' req" if "req \<in> set required" for req
    using that by (rule linesAfter_required)
  have nested: "\<not> needsIgnore ?st' ?l' p" if p: "p \<in> set (walkRoot ?l' (root ?st'))" for p
  proof (cases "needsIgnore st ?l p")
    case True
    from p set_walkRoot_mono [of ?l ?l' "root st"] mono
    have "p \<in> set (walkRoot ?l (root st))" by (auto simp: after_fields)
    with True have q: "p \<in> set (queuedNested st)"
      by (simp add: queuedNested_def Let_def)
    with assms have "cleanPath p" by (simp add: list_all_iff)
    with q have "isIgnored ?l' p" by (rule linesAfter_nested)
    then show ?thesis by (simp add: needsIgnore_def)
  next
    case False
    with mono [of p] show ?thesis
      by (auto simp: needsIgnore_def after_fields)
  qed
  have "filter (needsIgnore ?st' ?l') (walkRoot ?l' (root ?st')) = []"
    using nested by (simp add: filter_empty_conv)
  then have qn: "queuedNested ?st' = []"
    by (simp add: queuedNested_def Let_def l')
  have "concat (map (\<lambda>req. if found ?l' req then []
          else [js ''# Added by Autocommiter: ensure '' @ req, req]) required) = []"
    using req by (simp add: concat_eq_Nil_conv)
  with qn show ?thesis
    unfolding queued_eq [of ?st'] l' by simp
qed

text \<open>
  So the second run is a no-op whenever every path that the first run queues comes back
  from the file as the pattern that was written for it.
\<close>

lemma second_run_changes_nothing:
  assumes "list_all cleanPath (queuedNested st)"
  shows "ensureGitignoreSafety (fst (ensureGitignoreSafety st))
           = (fst (ensureGitignoreSafety st), False)"
proof -
  from assms have "queued (fst (ensureGitignoreSafety st)) = []"
    by (rule second_run_queues_nothing)
  then show ?thesis
    by (simp add: ensureGitignoreSafety_def [of "fst (ensureGitignoreSafety st)"] Let_def)
qed

subsection \<open>The example repositories\<close>

lemma queued_cong:
  "parseLines (readExisting st') = parseLines (readExisting st) \<Longrightarrow> root st' = root st \<Longrightarrow>
   gitmodulePaths st' = gitmodulePaths st \<Longrightarrow> subGitmodules st' = subGitmodules st \<Longrightarrow>
   queued st' = queued st"
  by (simp add: queued_eq queuedNested_def Let_def needsIgnore_def [abs_def])

lemma toWrite_longer: "\<not> list_all isWhiteSpace e \<Longrightarrow> toWrite e q \<noteq> e"
proof -
  assume a: "\<not> list_all isWhiteSpace e"
  then have "trim e \<noteq> []" by (simp add: trim_Nil_iff)
  moreover from a have "e \<noteq> []" by auto
  ultimately show ?thesis by (simp add: toWrite_def)
qed

lemma repoHash_lines: "parseLines (readExisting repoHash) = required"
  by (simp add: resolver_eval repoHash_def)

lemma repoHash_walk: "walkRoot required (root repoHash) = [js ''#x'']"
  by (simp add: resolver_eval repoHash_def)

lemma concat_found:
  "(\<And>req. req \<in> set rs \<Longrightarrow> found ls req) \<Longrightarrow>
   concat (map (\<lambda>req. if found ls req then [] else G req) rs) = []"
  by (induction rs) simp_all

lemma repoHash_queued:
  "queued repoHash = [js ''# Added by Autocommiter: ignore nested repo #x'', js ''#x/'']"
proof -
  have n: "needsIgnore repoHash required (js ''#x'')"
    by (simp add: needsIgnore_def repoHash_def required_def glob_eval)
  have nested: "queuedNested repoHash = [js ''#x'']"
    by (simp add: queuedNested_def Let_def repoHash_lines repoHash_walk n)
  have reqs: "concat (map (\<lambda>req. if found required req then []
          else [js ''# Added by Autocommiter: ensure '' @ req, req]) required) = []"
    by (rule concat_found) (rule found_self)
  show ?thesis
    unfolding queued_eq nested repoHash_lines reqs by (simp add: js_Cons js_Nil)
qed

lemma repoHash_after:
  "parseLines (readExisting (fst (ensureGitignoreSafety repoHash))) = required"
proof -
  have "parseLines (js ''# Added by Autocommiter: ignore nested repo #x'') = []"
    using parseLines_comment [of "js '' Added by Autocommiter: ignore nested repo #x''"]
    by (simp add: js_Cons js_Nil)
  moreover have "parseLines (js ''#x/'') = []"
    using parseLines_comment [of "js ''x/''"] by (simp add: js_Cons js_Nil)
  ultimately show ?thesis
    using linesAfter_eq [of repoHash]
    by (simp add: linesAfter_def repoHash_lines repoHash_queued)
qed

lemma repoVendor_nested: "queuedNested repoVendor = [js ''vendor'']"
proof -
  have l: "parseLines (readExisting repoVendor) = []"
    by (simp add: readExisting_def repoVendor_def parseLines_Nil)
  have w: "walkRoot [] (root repoVendor) = [js ''vendor'']"
    by (simp add: walkRoot_def repoVendor_def relJoin_def pushParent_def toPosix_id js_Cons js_Nil)
  have n: "needsIgnore repoVendor [] (js ''vendor'')"
    by (simp add: needsIgnore_def repoVendor_def)
  show ?thesis
    by (simp add: queuedNested_def Let_def l w n)
qed

lemma repoVendor_queued: "queued repoVendor \<noteq> []"
proof -
  have "js ''vendor'' \<in> set (queuedNested repoVendor)"
    by (simp add: repoVendor_nested)
  from queued_nested [OF this] show ?thesis by auto
qed

lemma repoDone_queued: "queued repoDone = []"
proof -
  have l: "parseLines (readExisting repoDone) = required"
    by (simp add: resolver_eval repoDone_def)
  have w: "walkRoot required (root repoDone) = []"
    by (simp add: resolver_eval repoDone_def)
  have reqs: "concat (map (\<lambda>req. if found required req then []
          else [js ''# Added by Autocommiter: ensure '' @ req, req]) required) = []"
    by (rule concat_found) (rule found_self)
  show ?thesis
    unfolding queued_eq queuedNested_def Let_def l w reqs by simp
qed

section \<open>Lemmas about compressToJson\<close>

subsection \<open>The search\<close>

lemma tryKeep_Some:
  "tryKeep fcs mapFn maxLen k = Some s \<Longrightarrow>
   \<exists>keep. 0 < keep \<and> keep \<le> k \<and> s = serialize (take keep fcs) mapFn \<and> int (length s) \<le> maxLen"
proof (induction k)
  case 0
  then show ?case by simp
next
  case (Suc k)
  show ?case
  proof (cases "int (length (serialize (take (Suc k) fcs) mapFn)) \<le> maxLen")
    case True
    with Suc.prems have "s = serialize (take (Suc k) fcs) mapFn" by (simp add: Let_def)
    with True show ?thesis by blast
  next
    case False
    with Suc.prems have "tryKeep fcs mapFn maxLen k = Some s" by (simp add: Let_def)
    from Suc.IH [OF this] show ?thesis using le_Suc_eq by blast
  qed
qed

lemma tryKeep_None:
  "tryKeep fcs mapFn maxLen k = None \<Longrightarrow> 0 < keep \<Longrightarrow> keep \<le> k \<Longrightarrow>
   \<not> int (length (serialize (take keep fcs) mapFn)) \<le> maxLen"
proof (induction k)
  case 0
  then show ?case by simp
next
  case (Suc k)
  from Suc.prems(1) have big: "\<not> int (length (serialize (take (Suc k) fcs) mapFn)) \<le> maxLen"
    and rest: "tryKeep fcs mapFn maxLen k = None"
    by (simp_all add: Let_def split: if_splits)
  show ?case
  proof (cases "keep = Suc k")
    case True
    with big show ?thesis by simp
  next
    case False
    with Suc.prems have "keep \<le> k" by simp
    with Suc.IH rest Suc.prems(2) show ?thesis by simp
  qed
qed

lemma tryKeep_first:
  "int (length (serialize (take k fcs) mapFn)) \<le> maxLen \<Longrightarrow> 0 < k \<Longrightarrow>
   tryKeep fcs mapFn maxLen k = Some (serialize (take k fcs) mapFn)"
  by (cases k) (simp_all add: Let_def)

lemma tryMaps_Some:
  "tryMaps fcs ms maxLen = Some s \<Longrightarrow>
   \<exists>mapFn keep. mapFn \<in> set ms \<and> 0 < keep \<and> keep \<le> length fcs
      \<and> s = serialize (take keep fcs) mapFn \<and> int (length s) \<le> maxLen"
proof (induction ms)
  case Nil
  then show ?case by simp
next
  case (Cons m ms)
  show ?case
  proof (cases "tryKeep fcs m maxLen (length fcs)")
    case None
    with Cons.prems have "tryMaps fcs ms maxLen = Some s" by simp
    from Cons.IH [OF this] obtain mapFn keep where
      "mapFn \<in> set ms" "0 < keep" "keep \<le> length fcs"
      "s = serialize (take keep fcs) mapFn" "int (length s) \<le> maxLen"
      by (elim exE conjE)
    then show ?thesis
      by (intro exI [of _ mapFn] exI [of _ keep]) simp
  next
    case (Some s')
    with Cons.prems have "s' = s" by simp
    with Some have "tryKeep fcs m maxLen (length fcs) = Some s" by simp
    from tryKeep_Some [OF this] obtain keep where
      "0 < keep" "keep \<le> length fcs"
      "s = serialize (take keep fcs) m" "int (length s) \<le> maxLen"
      by (elim exE conjE)
    then show ?thesis
      by (intro exI [of _ m] exI [of _ keep]) simp
  qed
qed

lemma tryMaps_None:
  "tryMaps fcs ms maxLen = None \<Longrightarrow> mapFn \<in> set ms \<Longrightarrow> 0 < keep \<Longrightarrow> keep \<le> length fcs \<Longrightarrow>
   \<not> int (length (serialize (take keep fcs) mapFn)) \<le> maxLen"
proof (induction ms)
  case Nil
  then show ?case by simp
next
  case (Cons m ms)
  from Cons.prems(1) have none: "tryKeep fcs m maxLen (length fcs) = None"
    and rest: "tryMaps fcs ms maxLen = None"
    by (simp_all split: option.splits)
  show ?case
  proof (cases "mapFn = m")
    case True
    with tryKeep_None [OF none Cons.prems(3,4)] show ?thesis by simp
  next
    case False
    with Cons.prems(2) have "mapFn \<in> set ms" by simp
    from Cons.IH [OF rest this Cons.prems(3,4)] show ?thesis .
  qed
qed

lemma tryMaps_fits:
  assumes "mapFn \<in> set ms" "0 < keep" "keep \<le> length fcs"
    "int (length (serialize (take keep fcs) mapFn)) \<le> maxLen"
  shows "tryMaps fcs ms maxLen \<noteq> None"
proof
  assume "tryMaps fcs ms maxLen = None"
  from tryMaps_None [OF this assms(1,2,3)] assms(4) show False by simp
qed

subsection \<open>JSON.stringify output reads back\<close>

lemma hexVal_hexDigit: "d < 16 \<Longrightarrow> hexVal (hexDigit d) = Some d"
proof -
  assume "d < 16"
  then have "d = 0 \<or> d = 1 \<or> d = 2 \<or> d = 3 \<or> d = 4 \<or> d = 5 \<or> d = 6 \<or> d = 7 \<or> d = 8
      \<or> d = 9 \<or> d = 10 \<or> d = 11 \<or> d = 12 \<or> d = 13 \<or> d = 14 \<or> d = 15"
    by arith
  then show ?thesis
    by (elim disjE) (simp_all add: hexVal_def hexDigit_def)
qed

lemma hex4_unicodeEscape:
  "unicodeEscape c = [chBackslash, 0x75, h3, h2, h1, h0] \<Longrightarrow> hex4 h3 h2 h1 h0 = Some c"
proof -
  assume a: "unicodeEscape c = [chBackslash, 0x75, h3, h2, h1, h0]"
  define n where "n = unat c"
  have n: "n < 65536" unfolding n_def using unsigned_less [of c] by simp
  from a have h: "h3 = hexDigit (n div 4096)" "h2 = hexDigit (n div 256 mod 16)"
      "h1 = hexDigit (n div 16 mod 16)" "h0 = hexDigit (n mod 16)"
    by (simp_all add: unicodeEscape_def Let_def n_def js_Cons js_Nil)
  from n have d3: "n div 4096 < 16" by simp
  have e0: "n = n div 16 * 16 + n mod 16" by simp
  have "n div 16 = n div 16 div 16 * 16 + n div 16 mod 16" by simp
  then have e1: "n div 16 = n div 256 * 16 + n div 16 mod 16"
    by (simp add: div_mult2_eq [symmetric])
  have "n div 256 = n div 256 div 16 * 16 + n div 256 mod 16" by simp
  then have e2: "n div 256 = n div 4096 * 16 + n div 256 mod 16"
    by (simp add: div_mult2_eq [symmetric])
  have sum: "n div 4096 * 4096 + n div 256 mod 16 * 256 + n div 16 mod 16 * 16 + n mod 16 = n"
    using e0 e1 e2 by linarith
  have v: "hexVal h3 = Some (n div 4096)" "hexVal h2 = Some (n div 256 mod 16)"
      "hexVal h1 = Some (n div 16 mod 16)" "hexVal h0 = Some (n mod 16)"
    unfolding h by (simp_all add: hexVal_hexDigit d3)
  have "hex4 h3 h2 h1 h0 =
      Some (of_nat (n div 4096 * 4096 + n div 256 mod 16 * 256 + n div 16 mod 16 * 16 + n mod 16))"
    by (simp only: hex4_def v Option.bind.bind_lunit)
  then have "hex4 h3 h2 h1 h0 = Some (of_nat n)"
    by (simp only: sum)
  then show ?thesis by (simp add: n_def)
qed

lemma unicodeEscape_shape:
  "\<exists>h3 h2 h1 h0. unicodeEscape c = [chBackslash, 0x75, h3, h2, h1, h0]"
  by (simp add: unicodeEscape_def Let_def js_Cons js_Nil)

lemma jsonChars_unicodeEscape:
  "jsonChars (unicodeEscape c @ r) = consS c (jsonChars r)"
proof -
  obtain h3 h2 h1 h0 where u: "unicodeEscape c = [chBackslash, 0x75, h3, h2, h1, h0]"
    using unicodeEscape_shape by blast
  from hex4_unicodeEscape [OF u] show ?thesis unfolding u by simp
qed

lemma jsonChars_plain:
  "c \<noteq> chQuote \<Longrightarrow> c \<noteq> chBackslash \<Longrightarrow> \<not> c < 0x20 \<Longrightarrow>
   jsonChars (c # r) = consS c (jsonChars r)"
  by simp

lemma jsonChars_quoteUnit: "jsonChars (quoteUnit c @ r) = consS c (jsonChars r)"
  unfolding quoteUnit_def
  by (simp add: jsonChars_unicodeEscape js_Cons js_Nil unescape_def del: jsonChars.simps)
     (simp add: unescape_def)

lemma surrogate_plain:
  "isLeadSurrogate c \<or> isTrailSurrogate c \<Longrightarrow> c \<noteq> chQuote \<and> c \<noteq> chBackslash \<and> \<not> c < 0x20"
  by (auto simp: isLeadSurrogate_def isTrailSurrogate_def word_le_nat_alt word_less_nat_alt)

lemma jsonChars_quoteBody:
  "jsonChars (quoteBody s @ chQuote # rest) = Some (s, rest)"
proof (induction s rule: quoteBody.induct)
  case 1
  show ?case by simp
next
  case (2 c)
  show ?case by (simp add: jsonChars_quoteUnit consS_def del: jsonChars.simps) simp
next
  case (3 c d cs)
  show ?case
  proof (cases "isLeadSurrogate c \<and> isTrailSurrogate d")
    case True
    then have c: "c \<noteq> chQuote \<and> c \<noteq> chBackslash \<and> \<not> c < 0x20"
      and d: "d \<noteq> chQuote \<and> d \<noteq> chBackslash \<and> \<not> d < 0x20"
      using surrogate_plain by blast+
    from True 3(1) have "jsonChars (quoteBody cs @ chQuote # rest) = Some (cs, rest)" by simp
    with True c d show ?thesis by (simp add: consS_def)
  next
    case False
    with 3(2) have IH: "jsonChars (quoteBody (d # cs) @ chQuote # rest) = Some (d # cs, rest)"
      by simp
    from False have "quoteBody (c # d # cs) = quoteUnit c @ quoteBody (d # cs)"
      by auto
    then show ?thesis
      by (simp only: append_assoc jsonChars_quoteUnit IH) (simp add: consS_def)
  qed
qed

lemma jsonString_quote:
  "jsonString (quoteJSONString s @ rest) = Some (s, rest)"
  by (simp add: jsonString_def quoteJSONString_def expect_def skipWs_def isJsonWs_def
      jsonChars_quoteBody del: jsonChars.simps)

lemma expect_hit: "\<not> isJsonWs c \<Longrightarrow> expect c (c # r) = Some r"
  by (simp add: expect_def skipWs_def)

lemma jsonKey_quote: "jsonKey k (quoteJSONString k @ rest) = Some rest"
  by (simp add: jsonKey_def jsonString_quote)

lemma stringifyEntry_tokens:
  "stringifyEntry e =
     0x7B # quoteJSONString (js ''f'') @ 0x3A # quoteJSONString (fst e) @
     chComma # quoteJSONString (js ''c'') @ 0x3A # quoteJSONString (snd e) @ [0x7D]"
  by (simp add: stringifyEntry_def quoteJSONString_def quoteUnit_def isLeadSurrogate_def
      isTrailSurrogate_def js_Cons js_Nil)

lemma parseEntry_stringify:
  "parseEntry (stringifyEntry e @ rest) = Some (e, rest)"
  by (simp add: stringifyEntry_tokens parseEntry_def expect_hit isJsonWs_def jsonKey_quote
      jsonString_quote)

lemma stringifyFiles_one_tokens:
  "stringifyFiles [e] =
     0x7B # quoteJSONString (js ''files'') @ 0x3A # 0x5B # stringifyEntry e @ [0x5D, 0x7D]"
  by (simp add: stringifyFiles_def quoteJSONString_def quoteUnit_def isLeadSurrogate_def
      isTrailSurrogate_def js_Cons js_Nil)

lemma stringifyEntry_head: "\<exists>r. stringifyEntry e = 0x7B # r"
  by (simp add: stringifyEntry_tokens)

lemma parseEntries_one:
  "parseEntries (stringifyEntry e @ 0x5D # rest) = Some ([e], rest)"
proof -
  obtain r where r: "stringifyEntry e = 0x7B # r"
    using stringifyEntry_head by blast
  have "expect 0x5D (stringifyEntry e @ 0x5D # rest) = None"
    unfolding r by (simp add: expect_def skipWs_def isJsonWs_def)
  moreover have "parseMore (0x5D # rest) = Some ([], rest)"
    by (simp add: expect_def skipWs_def isJsonWs_def)
  ultimately show ?thesis
    by (simp add: parseEntries_def parseEntry_stringify del: parseMore.simps)
qed

lemma parseDigest_stringify_one:
  "parseDigest (stringifyFiles [e]) = Some [e]"
  by (simp add: stringifyFiles_one_tokens parseDigest_def expect_hit isJsonWs_def
      jsonKey_quote parseEntries_one skipWs_def del: parseMore.simps)

lemma someFits_iff:
  "someFits fcs maxLen \<longleftrightarrow>
   (\<exists>mapFn keep. mapFn \<in> set maps \<and> 0 < keep \<and> keep \<le> length fcs
      \<and> int (length (serialize (take keep fcs) mapFn)) \<le> maxLen)"
proof -
  have aux: "(\<exists>keep\<in>set [1..<Suc n]. P keep) \<longleftrightarrow> (\<exists>keep. 0 < keep \<and> keep \<le> n \<and> P keep)"
    for P :: "nat \<Rightarrow> bool" and n
  proof
    assume "\<exists>keep\<in>set [1..<Suc n]. P keep"
    then obtain keep where "keep \<in> set [1..<Suc n]" "P keep" by (elim bexE)
    then have "0 < keep \<and> keep \<le> n \<and> P keep" by (simp del: upt_Suc)
    then show "\<exists>keep. 0 < keep \<and> keep \<le> n \<and> P keep" by (rule exI)
  next
    assume "\<exists>keep. 0 < keep \<and> keep \<le> n \<and> P keep"
    then obtain keep where "0 < keep" "keep \<le> n" "P keep" by (elim exE conjE)
    then have "keep \<in> set [1..<Suc n]" by (simp del: upt_Suc)
    with \<open>P keep\<close> show "\<exists>keep\<in>set [1..<Suc n]. P keep" by (intro bexI [of _ keep])
  qed
  show ?thesis
    unfolding someFits_def list_ex_iff aux by (simp add: Bex_def del: upt_Suc)
qed

lemma tryMaps_someFits: "someFits fcs maxLen \<longleftrightarrow> tryMaps fcs maps maxLen \<noteq> None"
proof
  assume "someFits fcs maxLen"
  then obtain mapFn keep where "mapFn \<in> set maps" "0 < keep" "keep \<le> length fcs"
    "int (length (serialize (take keep fcs) mapFn)) \<le> maxLen"
    unfolding someFits_iff by (elim exE conjE)
  then show "tryMaps fcs maps maxLen \<noteq> None"
    by (rule tryMaps_fits)
next
  assume "tryMaps fcs maps maxLen \<noteq> None"
  then obtain s where "tryMaps fcs maps maxLen = Some s" by auto
  from tryMaps_Some [OF this] obtain mapFn keep where
    "mapFn \<in> set maps" "0 < keep" "keep \<le> length fcs"
    "s = serialize (take keep fcs) mapFn" "int (length s) \<le> maxLen"
    by (elim exE conjE)
  then show "someFits fcs maxLen"
    unfolding someFits_iff by (intro exI [of _ mapFn] exI [of _ keep]) simp
qed

lemma compressToJson_fits:
  assumes "fcs \<noteq> []" "someFits fcs maxLen"
  shows "\<exists>mapFn keep. mapFn \<in> set maps \<and> 0 < keep \<and> keep \<le> length fcs
      \<and> compressToJson fcs maxLen = serialize (take keep fcs) mapFn
      \<and> int (length (compressToJson fcs maxLen)) \<le> maxLen"
proof -
  from assms(2) obtain s where s: "tryMaps fcs maps maxLen = Some s"
    unfolding tryMaps_someFits by blast
  with assms(1) have r: "compressToJson fcs maxLen = s"
    by (simp add: compressToJson_def)
  from tryMaps_Some [OF s] obtain mapFn keep where
    "mapFn \<in> set maps" "0 < keep" "keep \<le> length fcs"
    "s = serialize (take keep fcs) mapFn" "int (length s) \<le> maxLen"
    by (elim exE conjE)
  then show ?thesis
    unfolding r by (intro exI [of _ mapFn] exI [of _ keep]) simp
qed

lemma compressToJson_fallback:
  assumes "fcs \<noteq> []" "\<not> someFits fcs maxLen"
  shows "compressToJson fcs maxLen = stringifyFiles [minimalEntry (hd fcs)]"
proof -
  from assms(2) have "tryMaps fcs maps maxLen = None"
    unfolding tryMaps_someFits by simp
  moreover from assms(1) have "take 1 fcs = [hd fcs]"
    by (cases fcs) simp_all
  ultimately show ?thesis using assms(1)
    by (simp add: compressToJson_def)
qed

lemma compressToJson_full:
  assumes "fcs \<noteq> []" "int (length (serialize fcs (\<lambda>c f. c))) \<le> maxLen"
  shows "compressToJson fcs maxLen = serialize fcs (\<lambda>c f. c)"
proof -
  from assms have "tryKeep fcs (\<lambda>c f. c) maxLen (length fcs) = Some (serialize fcs (\<lambda>c f. c))"
    using tryKeep_first [of "length fcs" fcs "\<lambda>c f. c" maxLen] by simp
  then have "tryMaps fcs maps maxLen = Some (serialize fcs (\<lambda>c f. c))"
    by (simp add: maps_def)
  with assms(1) show ?thesis by (simp add: compressToJson_def)
qed

lemmas fits_eval = someFits_def upt_rec_numeral

lemma parseDigest_tiered_example:
  \<open>parseDigest (compressToJson [\<lparr>fc_file = js ''a.txt'', fc_change = js ''12+/3-''\<rparr>] 400)
     = Some [(js ''a.txt'', js ''12+/3-'')]\<close>
  by (simp add: compress_eval digest_eval)

subsection \<open>The first candidate that fits\<close>

text \<open>
  The loops return at the first transform, in the order of \<open>maps\<close>, under which some
  prefix fits, and there at the longest prefix that fits.
\<close>

lemma tryKeep_largest:
  "0 < keep \<Longrightarrow> keep \<le> n \<Longrightarrow> fitsAt fcs maxLen mapFn keep \<Longrightarrow>
   (\<And>k. keep < k \<Longrightarrow> k \<le> n \<Longrightarrow> \<not> fitsAt fcs maxLen mapFn k) \<Longrightarrow>
   tryKeep fcs mapFn maxLen n = Some (serialize (take keep fcs) mapFn)"
proof (induction n)
  case 0
  then show ?case by simp
next
  case (Suc n)
  show ?case
  proof (cases "keep = Suc n")
    case True
    with Suc.prems(3) show ?thesis by (simp add: fitsAt_def Let_def)
  next
    case False
    with Suc.prems(2) have le: "keep \<le> n" by simp
    with Suc.prems(4) [of "Suc n"] have "\<not> fitsAt fcs maxLen mapFn (Suc n)" by simp
    moreover have "tryKeep fcs mapFn maxLen n = Some (serialize (take keep fcs) mapFn)"
      using Suc.prems(1) le Suc.prems(3)
    proof (rule Suc.IH)
      fix k assume "keep < k" "k \<le> n"
      then show "\<not> fitsAt fcs maxLen mapFn k" using Suc.prems(4) [of k] by simp
    qed
    ultimately show ?thesis by (simp add: fitsAt_def Let_def)
  qed
qed

lemma tryKeep_no_fit:
  "(\<And>k. 0 < k \<Longrightarrow> k \<le> n \<Longrightarrow> \<not> fitsAt fcs maxLen mapFn k) \<Longrightarrow>
   tryKeep fcs mapFn maxLen n = None"
proof (induction n)
  case 0
  show ?case by simp
next
  case (Suc n)
  from Suc.prems [of "Suc n"] have "\<not> fitsAt fcs maxLen mapFn (Suc n)" by simp
  moreover have "tryKeep fcs mapFn maxLen n = None"
  proof (rule Suc.IH)
    fix k assume "0 < k" "k \<le> n"
    then show "\<not> fitsAt fcs maxLen mapFn k" using Suc.prems [of k] by simp
  qed
  ultimately show ?case by (simp add: fitsAt_def Let_def)
qed

lemma tryMaps_skip:
  "(\<And>mapFn. mapFn \<in> set xs \<Longrightarrow> tryKeep fcs mapFn maxLen (length fcs) = None) \<Longrightarrow>
   tryMaps fcs (xs @ ys) maxLen = tryMaps fcs ys maxLen"
  by (induction xs) simp_all

lemma upt_all_iff:
  "list_all P [a..<b] \<longleftrightarrow> (\<forall>k. a \<le> k \<and> k < b \<longrightarrow> P k)"
  by (auto simp: list_all_iff)

lemma compressToJson_first_fit:
  assumes m: "m < length maps"
    and keep: "0 < keep" "keep \<le> length fcs"
    and fits: "fitsAt fcs maxLen (maps ! m) keep"
    and longer: "list_all (\<lambda>k. \<not> fitsAt fcs maxLen (maps ! m) k) [Suc keep..<Suc (length fcs)]"
    and before: "list_all (\<lambda>mapFn. list_all (\<lambda>k. \<not> fitsAt fcs maxLen mapFn k)
                    [1..<Suc (length fcs)]) (take m maps)"
  shows "compressToJson fcs maxLen = serialize (take keep fcs) (maps ! m)"
proof -
  from keep have ne: "fcs \<noteq> []" by auto
  have split: "maps = take m maps @ (maps ! m) # drop (Suc m) maps"
    using m by (rule id_take_nth_drop)
  have none: "tryKeep fcs mapFn maxLen (length fcs) = None" if "mapFn \<in> set (take m maps)" for mapFn
  proof (rule tryKeep_no_fit)
    fix k assume k: "0 < k" "k \<le> length fcs"
    from before that have "list_all (\<lambda>k. \<not> fitsAt fcs maxLen mapFn k) [1..<Suc (length fcs)]"
      by (simp add: list_all_iff)
    with k show "\<not> fitsAt fcs maxLen mapFn k" by (simp add: upt_all_iff del: upt_Suc)
  qed
  have here: "tryKeep fcs (maps ! m) maxLen (length fcs) = Some (serialize (take keep fcs) (maps ! m))"
    using keep fits
  proof (rule tryKeep_largest)
    fix k assume "keep < k" "k \<le> length fcs"
    with longer show "\<not> fitsAt fcs maxLen (maps ! m) k"
      by (simp add: upt_all_iff del: upt_Suc)
  qed
  have "tryMaps fcs maps maxLen = tryMaps fcs ((maps ! m) # drop (Suc m) maps) maxLen"
    using tryMaps_skip [of "take m maps" fcs maxLen "(maps ! m) # drop (Suc m) maps"] none split
    by simp
  also have "\<dots> = Some (serialize (take keep fcs) (maps ! m))"
    by (simp add: here)
  finally show ?thesis using ne by (simp add: compressToJson_def)
qed

text \<open>The lengths of the candidates for \<open>threeFiles\<close>.\<close>

lemma threeFiles_full:
  "length (serialize (take 3 threeFiles) (\<lambda>c f. c)) = 91"
  "length (serialize (take 2 threeFiles) (\<lambda>c f. c)) = 65"
  "length (serialize (take 1 threeFiles) (\<lambda>c f. c)) = 39"
  by (simp_all add: threeFiles_def compress_eval)

lemma threeFiles_take3:
  "length (serialize (take 3 threeFiles) (\<lambda>c f. take 3 c)) = 84"
  "length (serialize (take 2 threeFiles) (\<lambda>c f. take 3 c)) = 60"
  "length (serialize (take 1 threeFiles) (\<lambda>c f. take 3 c)) = 36"
  by (simp_all add: threeFiles_def compress_eval)

lemma threeFiles_short_tokens:
  "serialize (take k threeFiles) (\<lambda>c f. take 12 c) = serialize (take k threeFiles) (\<lambda>c f. c)"
  "serialize (take k threeFiles) (\<lambda>c f. take 6 c) = serialize (take k threeFiles) (\<lambda>c f. c)"
  by (simp_all add: serialize_def item_def threeFiles_def js_Cons js_Nil take_Cons'
      split: nat.splits)

lemma threeFiles_38:
  "list_all (\<lambda>mapFn. list_all (\<lambda>k. \<not> fitsAt threeFiles 38 mapFn k)
       [1..<Suc (length threeFiles)]) (take 3 maps)"
proof -
  have len: "length threeFiles = 3" by (simp add: threeFiles_def)
  have m: "take 3 maps = [\<lambda>c f. c, \<lambda>c f. take 12 c, \<lambda>c f. take 6 c]"
    by (simp add: maps_def)
  have u: "[1..<Suc 3] = [1, 2, 3]"
    by (simp add: upt_conv_Cons)
  show ?thesis
    unfolding m len u
    using threeFiles_full(3) [unfolded One_nat_def]
    by (simp add: fitsAt_def threeFiles_short_tokens threeFiles_full)
qed

section \<open>The claims\<close>

text \<open>
  C1. The spec says that the pattern \<open>*.env*\<close> matches \<open>.env.local\<close> and
  \<open>secrets.env.bak\<close> and not \<open>config.json\<close>, by a translation that escapes every
  metacharacter and restores \<open>*\<close> as \<open>.*\<close>. The code does not escape the asterisk,
  so there is no backslash-asterisk to restore: the source of the regular expression
  is \<open>^*\.env*$\<close>, its construction throws, the error is swallowed, and the pattern
  matches none of the three paths.
\<close>

theorem C1_star_env_not_matched:
  "globSource (js ''*.env*'') = js ''^*'' @ [chBackslash] @ js ''.env*$''
   \<and> newRegExp (globSource (js ''*.env*'')) = Inl SyntaxError
   \<and> isIgnored [js ''*.env*''] (js ''.env.local'') = False
   \<and> isIgnored [js ''*.env*''] (js ''secrets.env.bak'') = False
   \<and> isIgnored [js ''*.env*''] (js ''config.json'') = False"
  by (simp add: glob_eval)

text \<open>
  C2, as amended. For a non-empty list: if some transform and some kept prefix of at
  least one entry serialize within the budget, the result is such a serialization (so
  it holds at least one entry) and its length is within the budget; if none does, the
  result is the last resort with exactly one entry and the change token \<open>mod\<close>, returned
  without a length check. Its file field is the last path segment of the first file,
  or the whole file string when that segment is empty.
\<close>

theorem C2_fits_or_fallback:
  "fileChanges \<noteq> [] \<Longrightarrow>
   (someFits fileChanges maxLen \<longrightarrow>
      int (length (compressToJson fileChanges maxLen)) \<le> maxLen
      \<and> (\<exists>mapFn keep. mapFn \<in> set maps \<and> 0 < keep \<and> keep \<le> length fileChanges
            \<and> compressToJson fileChanges maxLen = serialize (take keep fileChanges) mapFn))
   \<and> (\<not> someFits fileChanges maxLen \<longrightarrow>
      compressToJson fileChanges maxLen =
        stringifyFiles
          [(if last (splitOn chSlash (fc_file (hd fileChanges))) = []
            then fc_file (hd fileChanges)
            else last (splitOn chSlash (fc_file (hd fileChanges))), js ''mod'')])"
proof (intro conjI impI)
  assume ne: "fileChanges \<noteq> []" and fits: "someFits fileChanges maxLen"
  from compressToJson_fits [OF ne fits] obtain mapFn keep where mk:
    "mapFn \<in> set maps" "0 < keep" "keep \<le> length fileChanges"
    "compressToJson fileChanges maxLen = serialize (take keep fileChanges) mapFn"
    and len: "int (length (compressToJson fileChanges maxLen)) \<le> maxLen"
    by (elim exE conjE)
  from len show "int (length (compressToJson fileChanges maxLen)) \<le> maxLen" .
  from mk
  show "\<exists>mapFn keep. mapFn \<in> set maps \<and> 0 < keep \<and> keep \<le> length fileChanges
            \<and> compressToJson fileChanges maxLen = serialize (take keep fileChanges) mapFn"
    by (intro exI [of _ mapFn] exI [of _ keep]) simp
next
  assume ne: "fileChanges \<noteq> []" and no: "\<not> someFits fileChanges maxLen"
  from compressToJson_fallback [OF ne no]
  show "compressToJson fileChanges maxLen =
        stringifyFiles
          [(if last (splitOn chSlash (fc_file (hd fileChanges))) = []
            then fc_file (hd fileChanges)
            else last (splitOn chSlash (fc_file (hd fileChanges))), js ''mod'')]"
    by (simp add: minimalEntry_def Let_def)
qed

text \<open>
  Witness of C2: a list that fits the budget of 400, and one that does not fit a budget
  of 10 and falls back to the last path segment.
\<close>

theorem C2_witness:
  \<open>someFits [\<lparr>fc_file = js ''a.txt'', fc_change = js ''12+/3-''\<rparr>] 400
   \<and> int (length (compressToJson [\<lparr>fc_file = js ''a.txt'', fc_change = js ''12+/3-''\<rparr>] 400)) \<le> 400
   \<and> \<not> someFits [\<lparr>fc_file = js ''src/a.txt'', fc_change = js ''12+/3-''\<rparr>] 10
   \<and> compressToJson [\<lparr>fc_file = js ''src/a.txt'', fc_change = js ''12+/3-''\<rparr>] 10
       = stringifyFiles [(js ''a.txt'', js ''mod'')]\<close>
proof -
  have a: "[\<lparr>fc_file = js ''a.txt'', fc_change = js ''12+/3-''\<rparr>] \<noteq> []"
    and b: "[\<lparr>fc_file = js ''src/a.txt'', fc_change = js ''12+/3-''\<rparr>] \<noteq> []"
    by simp_all
  have f: "someFits [\<lparr>fc_file = js ''a.txt'', fc_change = js ''12+/3-''\<rparr>] 400"
    by (simp add: compress_eval fits_eval)
  have n: "\<not> someFits [\<lparr>fc_file = js ''src/a.txt'', fc_change = js ''12+/3-''\<rparr>] 10"
    by (simp add: compress_eval fits_eval)
  have l: "last (splitOn chSlash (js ''src/a.txt'')) = js ''a.txt''"
    by (simp add: js_Cons js_Nil)
  from C2_fits_or_fallback [OF a, of 400] f
  have 1: "int (length (compressToJson [\<lparr>fc_file = js ''a.txt'', fc_change = js ''12+/3-''\<rparr>] 400)) \<le> 400"
    by blast
  from C2_fits_or_fallback [OF b, of 10] n
  have 2: "compressToJson [\<lparr>fc_file = js ''src/a.txt'', fc_change = js ''12+/3-''\<rparr>] 10
       = stringifyFiles [(js ''a.txt'', js ''mod'')]"
    by (simp add: l js_Cons js_Nil)
  from f 1 n 2 show ?thesis by blast
qed

text \<open>
  Counterexample to C2 as the spec states it (the file field of the last resort is the
  last path segment of the first file): for the file \<open>a/\<close> the last segment is empty and
  the code writes \<open>a/\<close> (\<open>pop() || fc.file\<close>).
\<close>

theorem C2_counterexample:
  \<open>\<not> someFits [\<lparr>fc_file = js ''a/'', fc_change = js ''x''\<rparr>] 0
   \<and> compressToJson [\<lparr>fc_file = js ''a/'', fc_change = js ''x''\<rparr>] 0
       = js ''{"files":[{"f":"a/","c":"mod"}]}''
   \<and> last (splitOn chSlash (js ''a/'')) = []
   \<and> compressToJson [\<lparr>fc_file = js ''a/'', fc_change = js ''x''\<rparr>] 0
       \<noteq> stringifyFiles [(last (splitOn chSlash (js ''a/'')), js ''mod'')]\<close>
  by (simp add: compress_eval fits_eval)

text \<open>
  C3. The spec says that for every repository state a second run over the state that
  the first run leaves queues nothing, leaves the ignore file as it is and reports no
  modification. The last loop skips a nested repository that \<open>isIgnored\<close> finds among
  the lines of the file (line 215) and otherwise appends the path and \<open>/\<close> as a new
  line, so that the next run finds it. For a nested repository in a directory named
  \<open>#x\<close> the appended line is \<open>#x/\<close>, which the reading of the file (line 98) drops as
  a comment: after the first run the pattern lines are the four required patterns, the
  path \<open>#x\<close> is not matched as ignored, and the second run queues the same two lines,
  reports a modification and writes a longer file.
\<close>

theorem C3_hash_directory_queued_again:
  "queued repoHash = [js ''# Added by Autocommiter: ignore nested repo #x'', js ''#x/'']
   \<and> snd (ensureGitignoreSafety repoHash) = True
   \<and> linesAfter repoHash = required
   \<and> isIgnored (linesAfter repoHash) (js ''#x'') = False
   \<and> queued (fst (ensureGitignoreSafety repoHash))
       = [js ''# Added by Autocommiter: ignore nested repo #x'', js ''#x/'']
   \<and> snd (ensureGitignoreSafety (fst (ensureGitignoreSafety repoHash))) = True
   \<and> gitignore (fst (ensureGitignoreSafety (fst (ensureGitignoreSafety repoHash))))
       \<noteq> gitignore (fst (ensureGitignoreSafety repoHash))"
proof -
  let ?q = "[js ''# Added by Autocommiter: ignore nested repo #x'', js ''#x/'']"
  let ?st1 = "fst (ensureGitignoreSafety repoHash)"
  have q1: "queued ?st1 = ?q"
    using queued_cong [of ?st1 repoHash] repoHash_after repoHash_lines repoHash_queued
    by (simp add: after_fields)
  have m0: "snd (ensureGitignoreSafety repoHash) = True"
    by (simp add: ensureGitignoreSafety_def Let_def repoHash_queued)
  have g1: "gitignore ?st1 = Some (toWrite (readExisting repoHash) ?q)"
    by (simp add: ensureGitignoreSafety_def Let_def repoHash_queued)
  then have r1: "readExisting ?st1 = toWrite (readExisting repoHash) ?q"
    by (simp add: readExisting_def)
  have g2: "gitignore (fst (ensureGitignoreSafety ?st1))
      = Some (toWrite (readExisting ?st1) ?q)"
    by (simp add: ensureGitignoreSafety_def [of ?st1] Let_def q1)
  have "\<not> list_all isWhiteSpace (readExisting ?st1)"
    unfolding r1 by (simp add: toWrite_def readExisting_def repoHash_def js_Cons js_Nil
        isWhiteSpace_def)
  then have "toWrite (readExisting ?st1) ?q \<noteq> readExisting ?st1"
    by (rule toWrite_longer)
  then have ne: "gitignore (fst (ensureGitignoreSafety ?st1)) \<noteq> gitignore ?st1"
    unfolding g2 g1 r1 by simp
  have m: "snd (ensureGitignoreSafety ?st1) = True"
    by (simp add: ensureGitignoreSafety_def [of ?st1] Let_def q1)
  have la: "linesAfter repoHash = required"
    using repoHash_after by (simp add: linesAfter_def)
  have ni: "isIgnored required (js ''#x'') = False"
    by (simp add: required_def glob_eval)
  from repoHash_queued m0 la ni q1 m ne show ?thesis by simp
qed


text \<open>
  C5, as amended. A path is in the result of the walk exactly if it is the path, other
  than the root, of a directory in which the walk comes to a directory entry named
  \<open>.git\<close> that is not matched as ignored; the result has no duplicates; the content of a
  \<open>.git\<close> directory never matters (it is not descended into); and a directory matched as
  ignored, whatever its name, is passed over: neither descended into nor detected.
\<close>

theorem C5_walk_detects_unignored_git:
  "(p \<in> set (walkRoot ls (Dir r es)) \<longleftrightarrow>
      (\<exists>d e. reaches ls [] es d e \<and> isDirectory e \<and> nodeName e = js ''.git''
         \<and> \<not> isIgnored ls (relJoin d (js ''.git'')) \<and> d \<noteq> [] \<and> d \<noteq> js ''.'' \<and> p = d))
   \<and> distinct (walkRoot ls (Dir r es))
   \<and> walk ls d0 (Dir (js ''.git'') sub # es0) acc = walk ls d0 (Dir (js ''.git'') [] # es0) acc
   \<and> (isIgnored ls (relJoin d0 n) \<longrightarrow> walk ls d0 (Dir n sub # es0) acc = walk ls d0 es0 acc)"
proof (intro conjI impI)
  show "p \<in> set (walkRoot ls (Dir r es)) \<longleftrightarrow>
      (\<exists>d e. reaches ls [] es d e \<and> isDirectory e \<and> nodeName e = js ''.git''
         \<and> \<not> isIgnored ls (relJoin d (js ''.git'')) \<and> d \<noteq> [] \<and> d \<noteq> js ''.'' \<and> p = d)"
    by (rule walkRoot_iff)
  show "distinct (walkRoot ls (Dir r es))"
    by (simp add: walkRoot_def distinct_walk)
  show "walk ls d0 (Dir (js ''.git'') sub # es0) acc = walk ls d0 (Dir (js ''.git'') [] # es0) acc"
    by (simp add: Let_def)
next
  assume "isIgnored ls (relJoin d0 n)"
  then show "walk ls d0 (Dir n sub # es0) acc = walk ls d0 es0 acc"
    by (simp add: Let_def toPosix_id)
qed

text \<open>
  Witness of C5: the entry \<open>a/.git\<close> under the pattern \<open>a/.git\<close> is passed over.
\<close>

theorem C5_witness:
  "isIgnored [js ''a/.git''] (relJoin (js ''a'') (js ''.git''))
   \<and> walk [js ''a/.git''] (js ''a'') (Dir (js ''.git'') [] # []) [] = []"
proof -
  have h: "isIgnored [js ''a/.git''] (relJoin (js ''a'') (js ''.git''))"
    by (simp add: resolver_eval)
  from C5_walk_detects_unignored_git
         [of _ "[js ''a/.git'']" _ _ "js ''a''" _ "[]" "[]" "js ''.git''"] h
  have "walk [js ''a/.git''] (js ''a'') (Dir (js ''.git'') [] # []) []
      = walk [js ''a/.git''] (js ''a'') [] []"
    by blast
  with h show ?thesis by simp
qed

text \<open>
  Counterexample to C5 as the spec states it (a \<open>.git\<close> entry is detected whether or not
  it is matched as ignored): the walk comes to \<open>a/.git\<close>; with the pattern \<open>a/.git\<close> the
  result is empty, without it the result is \<open>a\<close>.
\<close>

theorem C5_counterexample:
  "reaches [js ''a/.git''] [] [Dir (js ''a'') [Dir (js ''.git'') []]]
      (js ''a'') (Dir (js ''.git'') [])
   \<and> isIgnored [js ''a/.git''] (js ''a/.git'') = True
   \<and> walkRoot [js ''a/.git''] (Dir [] [Dir (js ''a'') [Dir (js ''.git'') []]]) = []
   \<and> walkRoot [] (Dir [] [Dir (js ''a'') [Dir (js ''.git'') []]]) = [js ''a'']"
proof (intro conjI)
  show "reaches [js ''a/.git''] [] [Dir (js ''a'') [Dir (js ''.git'') []]]
      (js ''a'') (Dir (js ''.git'') [])"
    by (simp add: resolver_eval)
  show "isIgnored [js ''a/.git''] (js ''a/.git'') = True"
    by (simp add: resolver_eval)
  show "walkRoot [js ''a/.git''] (Dir [] [Dir (js ''a'') [Dir (js ''.git'') []]]) = []"
    by (simp add: resolver_eval)
  show "walkRoot [] (Dir [] [Dir (js ''a'') [Dir (js ''.git'') []]]) = [js ''a'']"
    by (simp add: resolver_eval)
qed

text \<open>
  C6, as amended. If lines were queued, the file becomes the existing content followed
  by a line feed (both left out when the existing content is white space only), then
  the queued lines, each followed by a line feed; the pattern lines of the new file are
  those of the old one, in order, followed by those of the queued lines. If nothing was
  queued the state is untouched.
\<close>

theorem C6_append_only:
  "(queued st \<noteq> [] \<longrightarrow>
      ensureGitignoreSafety st
        = (st\<lparr>gitignore := Some (toWrite (readExisting st) (queued st))\<rparr>, True))
   \<and> (queued st = [] \<longrightarrow> ensureGitignoreSafety st = (st, False))
   \<and> toWrite existing toAppend
       = (if list_all isWhiteSpace existing then [] else existing @ [chLF])
         @ joinWith [chLF] toAppend @ [chLF]
   \<and> parseLines (toWrite existing toAppend)
       = parseLines existing @ concat (map parseLines toAppend)"
proof (intro conjI impI)
  assume "queued st \<noteq> []"
  then show "ensureGitignoreSafety st
        = (st\<lparr>gitignore := Some (toWrite (readExisting st) (queued st))\<rparr>, True)"
    by (simp add: ensureGitignoreSafety_def Let_def)
next
  assume "queued st = []"
  then show "ensureGitignoreSafety st = (st, False)"
    by (simp add: ensureGitignoreSafety_def Let_def)
next
  have "(existing \<noteq> [] \<and> length (trim existing) > 0) \<longleftrightarrow> \<not> list_all isWhiteSpace existing"
    using trim_Nil_iff [of existing] by auto
  then show "toWrite existing toAppend
       = (if list_all isWhiteSpace existing then [] else existing @ [chLF])
         @ joinWith [chLF] toAppend @ [chLF]"
    by (simp add: toWrite_def)
next
  show "parseLines (toWrite existing toAppend)
       = parseLines existing @ concat (map parseLines toAppend)"
    by (rule parseLines_toWrite)
qed

text \<open>
  Witness of C6: one repository where lines are queued, one where none are.
\<close>

theorem C6_witness:
  "queued repoVendor \<noteq> []
   \<and> gitignore (fst (ensureGitignoreSafety repoVendor))
       = Some (toWrite (readExisting repoVendor) (queued repoVendor))
   \<and> queued repoDone = []
   \<and> ensureGitignoreSafety repoDone = (repoDone, False)"
proof -
  note a = repoVendor_queued
  note b = repoDone_queued
  from C6_append_only [of repoVendor] a
  have 1: "ensureGitignoreSafety repoVendor
      = (repoVendor\<lparr>gitignore := Some (toWrite (readExisting repoVendor) (queued repoVendor))\<rparr>, True)"
    by blast
  from C6_append_only [of repoDone] b
  have 2: "ensureGitignoreSafety repoDone = (repoDone, False)"
    by blast
  from a b 2 show ?thesis by (simp add: 1)
qed

text \<open>
  Counterexample to C6 as the spec states it (a separating line feed only when the
  existing content does not end in one; the existing content always kept): after
  \<open>a\n\<close> the code inserts a second line feed, and it drops an existing content of line
  feeds only.
\<close>

theorem C6_counterexample:
  "toWrite (js ''a'' @ [chLF]) [js ''x''] = js ''a'' @ [chLF, chLF] @ js ''x'' @ [chLF]
   \<and> claimedWrite (js ''a'' @ [chLF]) [js ''x''] = js ''a'' @ [chLF] @ js ''x'' @ [chLF]
   \<and> toWrite (js ''a'' @ [chLF]) [js ''x''] \<noteq> claimedWrite (js ''a'' @ [chLF]) [js ''x'']
   \<and> toWrite [chLF, chLF] [js ''x''] = js ''x'' @ [chLF]
   \<and> toWrite [chLF, chLF] [js ''x''] \<noteq> claimedWrite [chLF, chLF] [js ''x'']"
  by (simp add: resolver_eval claimedWrite_def)

text \<open>
  C7, as amended. The serialization of a list under a transform is the text
  \<open>{"files": [\<close>, the entries in the order of the list, each written as
  \<open>{"f":"file","c":"token"}\<close> and separated by commas, and \<open>]}\<close>. For a non-empty
  list: if the serialization with the full change tokens and all entries fits the
  budget, compressToJson returns exactly that serialization; in general it returns the
  serialization of the longest prefix \<open>take keep fileChanges\<close> that fits under the first
  transform, in the order of \<open>maps\<close>, under which some prefix fits; so the tiered result
  is always the serialization of a prefix of the input, in input order, and the last
  resort is built from the first entry. For the empty list the result is
  \<open>{"files":[]}\<close>, without the space of the serialization.
\<close>

theorem C7_full_fidelity_and_prefix:
  \<open>compressToJson [] maxLen = js ''{"files":[]}''
   \<and> serialize arr mapFn =
       js ''{"files": ['' @
       joinWith [chComma]
         (map (\<lambda>fc. js ''{"f":"'' @ escapeStr (fc_file fc) @ js ''","c":"'' @
                    escapeStr (mapFn (fc_change fc) (fc_file fc)) @ js ''"}'') arr) @
       js '']}''
   \<and> (fileChanges \<noteq> [] \<and> int (length (serialize fileChanges (\<lambda>c f. c))) \<le> maxLen
        \<longrightarrow> compressToJson fileChanges maxLen = serialize fileChanges (\<lambda>c f. c))
   \<and> (m < length maps \<and> 0 < keep \<and> keep \<le> length fileChanges
        \<and> fitsAt fileChanges maxLen (maps ! m) keep
        \<and> list_all (\<lambda>k. \<not> fitsAt fileChanges maxLen (maps ! m) k)
             [Suc keep..<Suc (length fileChanges)]
        \<and> list_all (\<lambda>mapFn. list_all (\<lambda>k. \<not> fitsAt fileChanges maxLen mapFn k)
                       [1..<Suc (length fileChanges)]) (take m maps)
        \<longrightarrow> compressToJson fileChanges maxLen = serialize (take keep fileChanges) (maps ! m))
   \<and> (fileChanges \<noteq> [] \<longrightarrow>
        (\<exists>keep mapFn. 0 < keep \<and> keep \<le> length fileChanges \<and> mapFn \<in> set maps \<and>
           (compressToJson fileChanges maxLen = serialize (take keep fileChanges) mapFn
            \<or> compressToJson fileChanges maxLen
                = stringifyFiles (map minimalEntry (take 1 fileChanges)))))\<close>
proof (intro conjI impI)
  show \<open>compressToJson [] maxLen = js ''{"files":[]}''\<close>
    by (simp add: compressToJson_def stringifyFiles_def js_Cons js_Nil)
next
  show \<open>serialize arr mapFn =
       js ''{"files": ['' @
       joinWith [chComma]
         (map (\<lambda>fc. js ''{"f":"'' @ escapeStr (fc_file fc) @ js ''","c":"'' @
                    escapeStr (mapFn (fc_change fc) (fc_file fc)) @ js ''"}'') arr) @
       js '']}''\<close>
    by (simp add: serialize_def item_def [abs_def])
next
  assume "fileChanges \<noteq> [] \<and> int (length (serialize fileChanges (\<lambda>c f. c))) \<le> maxLen"
  then show "compressToJson fileChanges maxLen = serialize fileChanges (\<lambda>c f. c)"
    by (simp add: compressToJson_full)
next
  assume "m < length maps \<and> 0 < keep \<and> keep \<le> length fileChanges
        \<and> fitsAt fileChanges maxLen (maps ! m) keep
        \<and> list_all (\<lambda>k. \<not> fitsAt fileChanges maxLen (maps ! m) k)
             [Suc keep..<Suc (length fileChanges)]
        \<and> list_all (\<lambda>mapFn. list_all (\<lambda>k. \<not> fitsAt fileChanges maxLen mapFn k)
                       [1..<Suc (length fileChanges)]) (take m maps)"
  then show "compressToJson fileChanges maxLen = serialize (take keep fileChanges) (maps ! m)"
    by (intro compressToJson_first_fit) (elim conjE, assumption)+
next
  assume ne: "fileChanges \<noteq> []"
  show "\<exists>keep mapFn. 0 < keep \<and> keep \<le> length fileChanges \<and> mapFn \<in> set maps \<and>
           (compressToJson fileChanges maxLen = serialize (take keep fileChanges) mapFn
            \<or> compressToJson fileChanges maxLen
                = stringifyFiles (map minimalEntry (take 1 fileChanges)))"
  proof (cases "someFits fileChanges maxLen")
    case True
    from compressToJson_fits [OF ne True] obtain mapFn keep where
      "mapFn \<in> set maps" "0 < keep" "keep \<le> length fileChanges"
      "compressToJson fileChanges maxLen = serialize (take keep fileChanges) mapFn"
      by (elim exE conjE)
    then show ?thesis
      by (intro exI [of _ keep] exI [of _ mapFn]) simp
  next
    case False
    from ne have one: "take 1 fileChanges = [hd fileChanges]"
      by (cases fileChanges) simp_all
    have "(\<lambda>c f. c) \<in> set maps" by (simp add: maps_def)
    moreover from ne have "0 < length fileChanges" by simp
    ultimately show ?thesis
      using compressToJson_fallback [OF ne False] one
      by (intro exI [of _ "length fileChanges"] exI [of _ "\<lambda>c f. c"]) simp
  qed
qed

text \<open>
  Witness of C7: three entries. Under the budget 400 the result is the full
  serialization; under 70 the full tokens are kept and the last entry is dropped (91
  code units with three entries, 65 with two); under 38 no prefix fits with the tokens
  in full or cut to 12 or 6 code units (39 with one entry), and the result is the first
  entry with its token cut to 3 code units; under 5 the result is a prefix or the last
  resort.
\<close>

theorem C7_witness:
  \<open>compressToJson threeFiles 400
     = js ''{"files": [{"f":"a.txt","c":"12+/3-"},{"f":"b.txt","c":"1+/1-"},{"f":"c.txt","c":"0+/9-"}]}''
   \<and> compressToJson threeFiles 70
     = js ''{"files": [{"f":"a.txt","c":"12+/3-"},{"f":"b.txt","c":"1+/1-"}]}''
   \<and> compressToJson threeFiles 38 = js ''{"files": [{"f":"a.txt","c":"12+"}]}''
   \<and> (\<exists>keep mapFn. 0 < keep \<and> keep \<le> length threeFiles \<and> mapFn \<in> set maps \<and>
          (compressToJson threeFiles 5 = serialize (take keep threeFiles) mapFn
           \<or> compressToJson threeFiles 5
               = stringifyFiles (map minimalEntry (take 1 threeFiles))))\<close>
proof -
  note main = C7_full_fidelity_and_prefix [where fileChanges = threeFiles]
  have ne: "threeFiles \<noteq> []" by (simp add: threeFiles_def)
  have len: "length threeFiles = 3" by (simp add: threeFiles_def)
  have t3: "take 3 threeFiles = threeFiles" by (simp add: threeFiles_def)
  have full: "int (length (serialize threeFiles (\<lambda>c f. c))) \<le> 400"
    using threeFiles_full(1) by (simp add: t3)
  from main [of 400] ne full
  have 1: "compressToJson threeFiles 400 = serialize threeFiles (\<lambda>c f. c)"
    by blast
  have m0: "maps ! 0 = (\<lambda>c f. c)" "(0::nat) < length maps" "take 0 maps = []"
    by (simp_all add: maps_def)
  have f2: "fitsAt threeFiles 70 (maps ! 0) 2"
    using threeFiles_full(2) by (simp add: fitsAt_def m0)
  have n3: "list_all (\<lambda>k. \<not> fitsAt threeFiles 70 (maps ! 0) k) [Suc 2..<Suc (length threeFiles)]"
    using threeFiles_full(1) by (simp add: fitsAt_def m0 len upt_rec_numeral)
  have b: "list_all (\<lambda>mapFn. list_all (\<lambda>k. \<not> fitsAt threeFiles 70 mapFn k)
                       [1..<Suc (length threeFiles)]) (take 0 maps)"
    by simp
  from main [of 70 _ _ 0 2] m0(2) f2 n3 b len
  have 2: "compressToJson threeFiles 70 = serialize (take 2 threeFiles) (maps ! 0)"
    by simp
  have m3: "maps ! 3 = (\<lambda>c f. take 3 c)" "(3::nat) < length maps"
    by (simp_all add: maps_def)
  have f1: "fitsAt threeFiles 38 (maps ! 3) 1"
    using threeFiles_take3(3) by (simp add: fitsAt_def m3)
  have u2: "[Suc 1..<Suc 3] = [2, 3]"
    by (simp add: upt_conv_Cons)
  have n1: "list_all (\<lambda>k. \<not> fitsAt threeFiles 38 (maps ! 3) k) [Suc 1..<Suc (length threeFiles)]"
    unfolding len u2 using threeFiles_take3(1,2) by (simp add: fitsAt_def m3)
  from main [of 38 _ _ 3 1] m3(2) f1 n1 threeFiles_38 len
  have 3: "compressToJson threeFiles 38 = serialize (take 1 threeFiles) (maps ! 3)"
    by simp
  from main [of 5] ne
  have 4: "\<exists>keep mapFn. 0 < keep \<and> keep \<le> length threeFiles \<and> mapFn \<in> set maps \<and>
          (compressToJson threeFiles 5 = serialize (take keep threeFiles) mapFn
           \<or> compressToJson threeFiles 5
               = stringifyFiles (map minimalEntry (take 1 threeFiles)))"
    by blast
  have s3: \<open>serialize threeFiles (\<lambda>c f. c)
     = js ''{"files": [{"f":"a.txt","c":"12+/3-"},{"f":"b.txt","c":"1+/1-"},{"f":"c.txt","c":"0+/9-"}]}''\<close>
    by (simp add: threeFiles_def compress_eval)
  have s2: \<open>serialize (take 2 threeFiles) (maps ! 0)
     = js ''{"files": [{"f":"a.txt","c":"12+/3-"},{"f":"b.txt","c":"1+/1-"}]}''\<close>
    by (simp add: threeFiles_def compress_eval)
  have s1: \<open>serialize (take 1 threeFiles) (maps ! 3) = js ''{"files": [{"f":"a.txt","c":"12+"}]}''\<close>
    by (simp add: threeFiles_def compress_eval)
  from 4 show ?thesis unfolding 1 2 3 s3 s2 s1 by simp
qed

text \<open>
  Counterexample to C7 as the spec states it (for every list): the empty list. Its
  full serialization \<open>{"files": []}\<close> has 13 code units and fits the budget 400, and
  the result is the text \<open>{"files":[]}\<close> of the early return (lines 87 to 89), which is not
  that serialization.
\<close>

theorem C7_counterexample:
  \<open>serialize [] (\<lambda>c f. c) = js ''{"files": []}''
   \<and> int (length (serialize [] (\<lambda>c f. c))) \<le> 400
   \<and> compressToJson [] 400 = js ''{"files":[]}''
   \<and> compressToJson [] 400 \<noteq> serialize [] (\<lambda>c f. c)\<close>
  by (simp add: compress_eval)

text \<open>
  C8. The spec says that for every non-empty list and every large enough budget the
  result is parseable JSON. The tiered serialization escapes backslash, double quote,
  line feed and carriage return only; a tab (or any other control character) in a file
  name goes into the JSON string as it is, which no JSON parser accepts. The last
  resort, built by JSON.stringify, escapes it.
\<close>

theorem C8_tab_breaks_json:
  \<open>compressToJson [\<lparr>fc_file = js ''a'' @ [0x09] @ js ''b'', fc_change = js ''1+/0-''\<rparr>] 400
     = js ''{"files": [{"f":"a'' @ [0x09] @ js ''b","c":"1+/0-"}]}''
   \<and> parseDigest
        (compressToJson [\<lparr>fc_file = js ''a'' @ [0x09] @ js ''b'', fc_change = js ''1+/0-''\<rparr>] 400)
       = None
   \<and> jsonChars (js ''a'' @ [0x09] @ js ''b","c":"1+/0-"}]}'') = None
   \<and> parseDigest (stringifyFiles [(js ''a'' @ [0x09] @ js ''b'', js ''1+/0-'')])
       = Some [(js ''a'' @ [0x09] @ js ''b'', js ''1+/0-'')]\<close>
  by (simp add: compress_eval digest_eval)

text \<open>
  C9, as amended. Both checks return a value for every pattern set, path and required
  pattern: with the thrown error written out, \<open>isIgnoredE\<close> and \<open>foundE\<close> are \<open>Inr\<close> of
  what \<open>isIgnored\<close> and \<open>found\<close> compute. When the construction of the regular
  expression of a pattern throws, the three statements without a \<open>try\<close> around them
  throw that error, and inside the \<open>try\<close> they count as no match. The pattern is not
  thereby non-matching for every path: the exact comparison and the directory rule come
  first, and the verdict of \<open>isIgnored\<close> on the pattern is theirs; only when both fail
  does the loop go on with the remaining patterns. The required-pattern check likewise
  goes on after the exact comparison.
\<close>

theorem C9_compile_failure_is_caught:
  "isIgnoredE lines relPath = Inr (isIgnored lines relPath)
   \<and> foundE lines req = Inr (found lines req)
   \<and> (newRegExp (globSource pat) = Inl e \<longrightarrow>
        patternMatches pat (toPosix relPath) = Inl e
        \<and> tryCatch (patternMatches pat (toPosix relPath)) (\<lambda>e. Inr False) = Inr False
        \<and> isIgnored (pat # pats) relPath
            = (pat = toPosix relPath
               \<or> (endsWithChar pat chSlash
                   \<and> (toPosix relPath = butlast pat \<or> startsWith (toPosix relPath) pat))
               \<or> isIgnored pats relPath)
        \<and> found (pat # lines) req = (pat = req \<or> found lines req))"
proof (intro conjI impI)
  show "isIgnoredE lines relPath = Inr (isIgnored lines relPath)"
    by (rule isIgnoredE_isIgnored)
  show "foundE lines req = Inr (found lines req)"
    by (rule foundE_found)
next
  assume e: "newRegExp (globSource pat) = Inl e"
  then show "patternMatches pat (toPosix relPath) = Inl e"
    by (simp add: patternMatches_def)
  from e show "tryCatch (patternMatches pat (toPosix relPath)) (\<lambda>e. Inr False) = Inr False"
    by (simp add: patternMatches_def tryCatch_def)
  from e show "isIgnored (pat # pats) relPath
            = (pat = toPosix relPath
               \<or> (endsWithChar pat chSlash
                   \<and> (toPosix relPath = butlast pat \<or> startsWith (toPosix relPath) pat))
               \<or> isIgnored pats relPath)"
    by (auto simp: Let_def)
  from e show "found (pat # lines) req = (pat = req \<or> found lines req)"
    by auto
qed

text \<open>
  Witness of C9: the pattern \<open>*\<close>, whose regular expression \<open>^*$\<close> does not compile.
  Against the path \<open>a\<close> it matches by none of the rules, the error stays inside the
  check, and the pattern \<open>a\<close> behind it is still tried.
\<close>

theorem C9_witness:
  "newRegExp (globSource (js ''*'')) = Inl SyntaxError
   \<and> patternMatches (js ''*'') (js ''a'') = Inl SyntaxError
   \<and> isIgnoredE [js ''*'', js ''a''] (js ''a'') = Inr True
   \<and> isIgnoredE [js ''*''] (js ''a'') = Inr False
   \<and> isIgnored [js ''*''] (js ''a'') = False
   \<and> isIgnored [js ''*'', js ''a''] (js ''a'') = True
   \<and> foundE [js ''*''] (js ''*.env*'') = Inr False
   \<and> found [js ''*''] (js ''*.env*'') = False"
proof -
  have h: "newRegExp (globSource (js ''*'')) = Inl SyntaxError"
    by (simp add: glob_eval)
  note all = C9_compile_failure_is_caught [of _ _ _ "js ''*''" SyntaxError]
  have t: "toPosix (js ''a'') = js ''a''"
    by (simp add: toPosix_id)
  from all [of "[]" "js ''a''" "[]" "[]"] h
  have pm: "patternMatches (js ''*'') (toPosix (js ''a'')) = Inl SyntaxError"
    and i1: "isIgnored [js ''*''] (js ''a'')
       = (js ''*'' = toPosix (js ''a'')
          \<or> (endsWithChar (js ''*'') chSlash
              \<and> (toPosix (js ''a'') = butlast (js ''*'') \<or> startsWith (toPosix (js ''a'')) (js ''*'')))
          \<or> isIgnored [] (js ''a''))"
    by blast+
  from all [of "[]" "js ''a''" "js ''*.env*''" "[js ''a'']"] h
  have i2: "isIgnored [js ''*'', js ''a''] (js ''a'')
       = (js ''*'' = toPosix (js ''a'')
          \<or> (endsWithChar (js ''*'') chSlash
              \<and> (toPosix (js ''a'') = butlast (js ''*'') \<or> startsWith (toPosix (js ''a'')) (js ''*'')))
          \<or> isIgnored [js ''a''] (js ''a''))"
    and f: "found [js ''*''] (js ''*.env*'') = (js ''*'' = js ''*.env*'' \<or> found [] (js ''*.env*''))"
    by blast+
  from all [of "[js ''*'', js ''a'']" "js ''a''" "[]" "[]"]
  have e2: "isIgnoredE [js ''*'', js ''a''] (js ''a'') = Inr (isIgnored [js ''*'', js ''a''] (js ''a''))"
    by blast
  from all [of "[js ''*'']" "js ''a''" "js ''*.env*''" "[]"]
  have e1: "isIgnoredE [js ''*''] (js ''a'') = Inr (isIgnored [js ''*''] (js ''a''))"
    and fe: "foundE [js ''*''] (js ''*.env*'') = Inr (found [js ''*''] (js ''*.env*''))"
    by blast+
  have 1: "isIgnored [js ''*''] (js ''a'') = False"
    unfolding i1 t by (simp add: js_Cons js_Nil endsWithChar_def)
  have 2: "isIgnored [js ''*'', js ''a''] (js ''a'') = True"
    unfolding i2 t by (simp add: toPosix_id)
  have 3: "found [js ''*''] (js ''*.env*'') = False"
    unfolding f by (simp add: js_Cons js_Nil)
  from h pm e1 e2 fe 1 2 3 show ?thesis by (simp add: t)
qed

text \<open>
  Counterexample to C9 as the spec states it (non-matching for every path): the
  patterns \<open>*\<close> and \<open>*/\<close> do not compile, and \<open>*\<close> matches the path \<open>*\<close> by the exact
  comparison, \<open>*/\<close> the path \<open>*/secret.txt\<close> by the directory rule.
\<close>

theorem C9_counterexample:
  "newRegExp (globSource (js ''*'')) = Inl SyntaxError
   \<and> isIgnored [js ''*''] (js ''*'') = True
   \<and> newRegExp (globSource (js ''*/'')) = Inl SyntaxError
   \<and> isIgnored [js ''*/''] (js ''*/secret.txt'') = True"
  by (simp add: glob_eval)

text \<open>
  C10. When no transform and no kept prefix fits the budget, the result is
  \<open>JSON.stringify({files: [{f, c: 'mod'}]})\<close> with \<open>f\<close> the last path segment of the first
  file, or the whole file string when that segment is empty. Whatever the code units of
  the file name, this text reads back as JSON to exactly that one entry; the manual
  escaper of the tiered paths leaves a tab as it is, JSON.stringify writes \<open>\t\<close>.
\<close>

theorem C10_fallback_is_json:
  "fileChanges \<noteq> [] \<Longrightarrow> \<not> someFits fileChanges maxLen \<Longrightarrow>
   compressToJson fileChanges maxLen = stringifyFiles [minimalEntry (hd fileChanges)]
   \<and> parseDigest (compressToJson fileChanges maxLen) = Some [minimalEntry (hd fileChanges)]
   \<and> minimalEntry (hd fileChanges) =
       (if last (splitOn chSlash (fc_file (hd fileChanges))) = []
        then fc_file (hd fileChanges)
        else last (splitOn chSlash (fc_file (hd fileChanges))), js ''mod'')
   \<and> escapeStr [0x09] = [0x09]
   \<and> quoteJSONString [0x09] = [chQuote, chBackslash, 0x74, chQuote]"
proof (intro conjI)
  assume ne: "fileChanges \<noteq> []" and no: "\<not> someFits fileChanges maxLen"
  show r: "compressToJson fileChanges maxLen = stringifyFiles [minimalEntry (hd fileChanges)]"
    by (rule compressToJson_fallback [OF ne no])
  show "parseDigest (compressToJson fileChanges maxLen) = Some [minimalEntry (hd fileChanges)]"
    unfolding r by (rule parseDigest_stringify_one)
  show "minimalEntry (hd fileChanges) =
       (if last (splitOn chSlash (fc_file (hd fileChanges))) = []
        then fc_file (hd fileChanges)
        else last (splitOn chSlash (fc_file (hd fileChanges))), js ''mod'')"
    by (simp add: minimalEntry_def Let_def)
  show "escapeStr [0x09] = [0x09]"
    by (simp add: escapeStr_def)
  show "quoteJSONString [0x09] = [chQuote, chBackslash, 0x74, chQuote]"
    by (simp add: quoteJSONString_def quoteUnit_def js_Cons js_Nil)
qed

text \<open>
  Witness of C10: a file name with a tab under a budget of 20.
\<close>

theorem C10_witness:
  \<open>[\<lparr>fc_file = js ''d/a'' @ [0x09] @ js ''b'', fc_change = js ''1+/0-''\<rparr>] \<noteq> []
   \<and> \<not> someFits [\<lparr>fc_file = js ''d/a'' @ [0x09] @ js ''b'', fc_change = js ''1+/0-''\<rparr>] 20
   \<and> compressToJson [\<lparr>fc_file = js ''d/a'' @ [0x09] @ js ''b'', fc_change = js ''1+/0-''\<rparr>] 20
       = js ''{"files":[{"f":"a'' @ [chBackslash] @ js ''tb","c":"mod"}]}''
   \<and> parseDigest
        (compressToJson [\<lparr>fc_file = js ''d/a'' @ [0x09] @ js ''b'', fc_change = js ''1+/0-''\<rparr>] 20)
       = Some [(js ''a'' @ [0x09] @ js ''b'', js ''mod'')]\<close>
proof -
  have ne: "[\<lparr>fc_file = js ''d/a'' @ [0x09] @ js ''b'', fc_change = js ''1+/0-''\<rparr>] \<noteq> []"
    by simp
  have no: "\<not> someFits [\<lparr>fc_file = js ''d/a'' @ [0x09] @ js ''b'', fc_change = js ''1+/0-''\<rparr>] 20"
    by (simp add: compress_eval fits_eval)
  have m: "minimalEntry \<lparr>fc_file = js ''d/a'' @ [0x09] @ js ''b'', fc_change = js ''1+/0-''\<rparr>
      = (js ''a'' @ [0x09] @ js ''b'', js ''mod'')"
    by (simp add: minimalEntry_def js_Cons js_Nil)
  have s: \<open>stringifyFiles [(js ''a'' @ [0x09] @ js ''b'', js ''mod'')]
      = js ''{"files":[{"f":"a'' @ [chBackslash] @ js ''tb","c":"mod"}]}''\<close>
    by (simp add: compress_eval)
  from C10_fallback_is_json [OF ne no]
  have r: "compressToJson [\<lparr>fc_file = js ''d/a'' @ [0x09] @ js ''b'', fc_change = js ''1+/0-''\<rparr>] 20
      = stringifyFiles
          [minimalEntry (hd [\<lparr>fc_file = js ''d/a'' @ [0x09] @ js ''b'', fc_change = js ''1+/0-''\<rparr>])]"
    and p: "parseDigest
        (compressToJson [\<lparr>fc_file = js ''d/a'' @ [0x09] @ js ''b'', fc_change = js ''1+/0-''\<rparr>] 20)
      = Some [minimalEntry (hd [\<lparr>fc_file = js ''d/a'' @ [0x09] @ js ''b'', fc_change = js ''1+/0-''\<rparr>])]"
    by blast+
  from r have r': \<open>compressToJson [\<lparr>fc_file = js ''d/a'' @ [0x09] @ js ''b'', fc_change = js ''1+/0-''\<rparr>] 20
      = js ''{"files":[{"f":"a'' @ [chBackslash] @ js ''tb","c":"mod"}]}''\<close>
    by (simp only: list.sel m s)
  from p have p': "parseDigest
        (compressToJson [\<lparr>fc_file = js ''d/a'' @ [0x09] @ js ''b'', fc_change = js ''1+/0-''\<rparr>] 20)
      = Some [(js ''a'' @ [0x09] @ js ''b'', js ''mod'')]"
    by (simp only: list.sel m)
  from ne no r' p' show ?thesis by blast
qed

end
